theory Spec2Isabelle
  imports Complex_Main
begin

unbundle bit_operations_syntax

section \<open>The maze generator \<open>gen_maze\<close> of \<open>__main__.py\<close>\<close>

text \<open>
  The generator works on five flat arrays and two queues, all indexed by
  \<open>t(x, y) = width * y + x\<close>. The embedding keeps them as the fields of a record that
  every helper takes and returns. Each Python exception that can leave \<open>gen_maze\<close> is
  a value of \<open>error\<close>; a result is \<open>Inl\<close> of the error or \<open>Inr\<close> of the value.
\<close>

subsection \<open>Errors and Python list indexing\<close>

text \<open>
  \<open>SystemExit\<close> carries what the program printed before it called \<open>exit()\<close>.
\<close>

datatype error = ValueError | IndexError | TypeError | SystemExit string

definition ebind :: "error + 'a \<Rightarrow> ('a \<Rightarrow> error + 'b) \<Rightarrow> error + 'b" where
  "ebind m f = (case m of Inl e \<Rightarrow> Inl e | Inr v \<Rightarrow> f v)"

text \<open>
  \<open>xs[i]\<close> in Python: an index in \<open>[0, len)\<close> is taken as it is, one in \<open>[-len, 0)\<close>
  counts from the end, anything else raises \<open>IndexError\<close>.
\<close>

definition py_index :: "nat \<Rightarrow> int \<Rightarrow> nat option" where
  "py_index n i =
     (if 0 \<le> i \<and> i < int n then Some (nat i)
      else if - int n \<le> i \<and> i < 0 then Some (nat (int n + i))
      else None)"

definition py_get :: "'a list \<Rightarrow> int \<Rightarrow> error + 'a" where
  "py_get xs i = (case py_index (length xs) i of None \<Rightarrow> Inl IndexError | Some j \<Rightarrow> Inr (xs ! j))"

definition py_set :: "'a list \<Rightarrow> int \<Rightarrow> 'a \<Rightarrow> error + 'a list" where
  "py_set xs i v = (case py_index (length xs) i of None \<Rightarrow> Inl IndexError | Some j \<Rightarrow> Inr (xs[j := v]))"

subsection \<open>Python's floats\<close>

text \<open>
  A Python \<open>float\<close> is an IEEE 754 binary64 number. The generator adds floats (in
  \<open>accumulate\<close> and in \<open>cum_weights[-1] + 0.0\<close>), multiplies them
  (\<open>random() * total\<close>), compares them and asks whether one is finite. A finite float
  is kept as the rational number it denotes; an operation computes the exact result and
  rounds it to the nearest float, a tie going to the even significand, and a result of
  \<open>2 ** 1024\<close> or more overflows to infinity. The two zeros are one value: the
  generator never divides, so their sign is never observed.
\<close>

datatype pyfloat = Fin rat | PInf | NInf | NaN

text \<open>\<open>int.bit_length\<close> of a positive integer.\<close>

function bit_length :: "int \<Rightarrow> int" where
  "bit_length x = (if x \<le> 0 then 0 else 1 + bit_length (x div 2))"
  by pat_completeness auto
termination
  by (relation "measure nat") auto

declare bit_length.simps [simp del]

definition pow2 :: "int \<Rightarrow> rat" where
  "pow2 k = (if 0 \<le> k then of_int (2 ^ nat k) else 1 / of_int (2 ^ nat (- k)))"

text \<open>The binary exponent of a positive rational \<open>a\<close>: the \<open>e\<close> with \<open>2 ** e \<le> a < 2 ** (e + 1)\<close>.\<close>

definition exponent :: "rat \<Rightarrow> int" where
  "exponent a =
     (case quotient_of a of (p, d) \<Rightarrow>
        let e = bit_length p - bit_length d in if pow2 e \<le> a then e else e - 1)"

definition round_half_even :: "rat \<Rightarrow> int" where
  "round_half_even m =
     (let f = \<lfloor>m\<rfloor>; r = m - of_int f
      in if r < 1 / 2 then f else if 1 / 2 < r then f + 1 else if even f then f else f + 1)"

text \<open>
  Rounding to binary64: 53 significant bits, so the spacing at exponent \<open>e\<close> is
  \<open>2 ** (e - 52)\<close>, and \<open>2 ** -1074\<close> below the least normal exponent \<open>-1022\<close>.
\<close>

definition round_double :: "rat \<Rightarrow> pyfloat" where
  "round_double x =
     (if x = 0 then Fin 0
      else
        let a = \<bar>x\<bar>;
            e = exponent a;
            quantum = pow2 (max e (- 1022) - 52);
            n = round_half_even (a / quantum)
        in if 1024 \<le> e \<or> e = 1023 \<and> n = 2 ^ 53 then (if x < 0 then NInf else PInf)
           else Fin (if x < 0 then - (of_int n * quantum) else of_int n * quantum))"

text \<open>\<open>float(s)\<close> of a decimal numeral \<open>s\<close>, as \<open>argparse\<close> and the float literals of the source read it.\<close>

definition py_float :: "rat \<Rightarrow> pyfloat" where
  "py_float x = round_double x"

fun fadd :: "pyfloat \<Rightarrow> pyfloat \<Rightarrow> pyfloat" where
  "fadd (Fin a) (Fin b) = round_double (a + b)"
| "fadd NaN y = NaN"
| "fadd x NaN = NaN"
| "fadd PInf NInf = NaN"
| "fadd NInf PInf = NaN"
| "fadd PInf y = PInf"
| "fadd NInf y = NInf"
| "fadd (Fin a) y = y"

fun fmul :: "pyfloat \<Rightarrow> pyfloat \<Rightarrow> pyfloat" where
  "fmul (Fin a) (Fin b) = round_double (a * b)"
| "fmul NaN y = NaN"
| "fmul x NaN = NaN"
| "fmul (Fin a) PInf = (if a = 0 then NaN else if 0 < a then PInf else NInf)"
| "fmul (Fin a) NInf = (if a = 0 then NaN else if 0 < a then NInf else PInf)"
| "fmul PInf (Fin b) = (if b = 0 then NaN else if 0 < b then PInf else NInf)"
| "fmul NInf (Fin b) = (if b = 0 then NaN else if 0 < b then NInf else PInf)"
| "fmul PInf PInf = PInf"
| "fmul NInf NInf = PInf"
| "fmul PInf NInf = NInf"
| "fmul NInf PInf = NInf"

text \<open>\<open>x < y\<close> and \<open>x <= y\<close> on floats: false whenever one side is not a number.\<close>

fun flt :: "pyfloat \<Rightarrow> pyfloat \<Rightarrow> bool" where
  "flt (Fin a) (Fin b) = (a < b)"
| "flt NaN y = False"
| "flt x NaN = False"
| "flt x NInf = False"
| "flt PInf y = False"
| "flt NInf y = True"
| "flt (Fin a) PInf = True"

fun fle :: "pyfloat \<Rightarrow> pyfloat \<Rightarrow> bool" where
  "fle (Fin a) (Fin b) = (a \<le> b)"
| "fle NaN y = False"
| "fle x NaN = False"
| "fle NInf y = True"
| "fle x PInf = True"
| "fle PInf y = False"
| "fle (Fin a) NInf = False"

fun isfinite :: "pyfloat \<Rightarrow> bool" where
  "isfinite (Fin a) = True"
| "isfinite x = False"

subsection \<open>The seeded random generator\<close>

text \<open>
  \<open>random.seed(seed)\<close> fixes the sequence of numbers the module-level generator hands
  out. The embedding takes that sequence as the input in place of the seed: a list of raw
  draws (the non-negative integers \<open>getrandbits\<close> returns), read from the front and
  continued with zeros. Each library call reads one raw draw and reduces it to its range:
  \<open>_randbelow(n)\<close> yields a number below \<open>n\<close>, \<open>random()\<close> a 53-bit fraction
  in \<open>[0, 1)\<close>, which is a float as it stands.
\<close>

type_synonym cell = "int \<times> int"
type_synonym rng = "int list"

fun draw :: "rng \<Rightarrow> int \<times> rng" where
  "draw [] = (0, [])"
| "draw (r # g) = (r, g)"

definition randbelow :: "nat \<Rightarrow> rng \<Rightarrow> nat \<times> rng" where
  "randbelow n g = (case draw g of (r, g') \<Rightarrow> (nat (r mod int n), g'))"

definition random_unit :: "rng \<Rightarrow> pyfloat \<times> rng" where
  "random_unit g = (case draw g of (r, g') \<Rightarrow> (Fin (of_int (r mod 2 ^ 53) / 2 ^ 53), g'))"

text \<open>\<open>random.choice(seq)\<close>: \<open>IndexError\<close> on an empty sequence.\<close>

definition random_choice :: "'a list \<Rightarrow> rng \<Rightarrow> error + ('a \<times> rng)" where
  "random_choice xs g =
     (if xs = [] then Inl IndexError
      else case randbelow (length xs) g of (i, g') \<Rightarrow> Inr (xs ! i, g'))"

text \<open>\<open>random.randint(a, b)\<close>, both ends included: \<open>ValueError\<close> on an empty range.\<close>

definition randint :: "int \<Rightarrow> int \<Rightarrow> rng \<Rightarrow> error + (int \<times> rng)" where
  "randint a b g =
     (if b < a then Inl ValueError
      else case randbelow (nat (b - a + 1)) g of (i, g') \<Rightarrow> Inr (a + int i, g'))"

text \<open>\<open>bisect.bisect_right(a, x, lo, hi)\<close>.\<close>

function bisect_right :: "pyfloat list \<Rightarrow> pyfloat \<Rightarrow> nat \<Rightarrow> nat \<Rightarrow> nat" where
  "bisect_right a x lo hi =
     (if lo < hi then
        (let mid = (lo + hi) div 2
         in if flt x (a ! mid) then bisect_right a x lo mid else bisect_right a x (mid + 1) hi)
      else lo)"
  by pat_completeness auto
termination
  by (relation "measure (\<lambda>(a, x, lo, hi). hi - lo)") auto

declare bisect_right.simps [simp del]

text \<open>
  \<open>random.choices(population, cum_weights=cum_weights)[0]\<close> (CPython 3.11): the lengths
  must agree, and \<open>total = cum_weights[-1] + 0.0\<close> must be greater than zero and
  finite, else \<open>ValueError\<close>; the result is the entry at
  \<open>bisect(cum_weights, random() * total, 0, n - 1)\<close>.
\<close>

definition choices :: "'a list \<Rightarrow> pyfloat list \<Rightarrow> rng \<Rightarrow> error + ('a \<times> rng)" where
  "choices population cum_weights g =
     (if length cum_weights \<noteq> length population then Inl ValueError
      else if cum_weights = [] then Inl IndexError
      else
        let total = fadd (last cum_weights) (Fin 0)
        in if fle total (Fin 0) then Inl ValueError
           else if \<not> isfinite total then Inl ValueError
           else case random_unit g of (u, g') \<Rightarrow>
             Inr (population ! bisect_right cum_weights (fmul u total) 0 (length population - 1), g'))"

text \<open>
  \<open>random.sample(population, k)\<close> for a population of at most 21 entries (here at
  most four): \<open>ValueError\<close> when \<open>k\<close> exceeds the population, else \<open>k\<close> picks
  from a pool whose picked entry is overwritten by its last one.
\<close>

fun sample_pool :: "'a list \<Rightarrow> nat \<Rightarrow> nat \<Rightarrow> rng \<Rightarrow> 'a list \<times> rng" where
  "sample_pool pool m 0 g = ([], g)"
| "sample_pool pool m (Suc k) g =
     (case randbelow m g of (j, g') \<Rightarrow>
        (case sample_pool (pool[j := pool ! (m - 1)]) (m - 1) k g' of (xs, g'') \<Rightarrow>
           (pool ! j # xs, g'')))"

definition sample :: "'a list \<Rightarrow> nat \<Rightarrow> rng \<Rightarrow> error + ('a list \<times> rng)" where
  "sample population k g =
     (if length population < k then Inl ValueError
      else Inr (sample_pool population (length population) k g))"

text \<open>
  \<open>itertools.accumulate\<close> of floats: the first entry as it is, then each running total
  plus the next entry, in float addition.
\<close>

fun accumulate_from :: "pyfloat \<Rightarrow> pyfloat list \<Rightarrow> pyfloat list" where
  "accumulate_from s [] = []"
| "accumulate_from s (x # xs) = fadd s x # accumulate_from (fadd s x) xs"

fun accumulate :: "pyfloat list \<Rightarrow> pyfloat list" where
  "accumulate [] = []"
| "accumulate (x # xs) = x # accumulate_from x xs"

subsection \<open>Grid addressing\<close>

definition INF_sentinel :: int where
  "INF_sentinel = 2 ^ 62"

definition t :: "int \<Rightarrow> cell \<Rightarrow> int" where
  "t w c = w * snd c + fst c"

definition in_bounds :: "int \<Rightarrow> int \<Rightarrow> cell \<Rightarrow> bool" where
  "in_bounds w h c = (0 \<le> fst c \<and> fst c < w \<and> 0 \<le> snd c \<and> snd c < h)"

definition is_border :: "int \<Rightarrow> int \<Rightarrow> cell \<Rightarrow> bool" where
  "is_border w h c = (fst c = 0 \<or> snd c = 0 \<or> fst c = w - 1 \<or> snd c = h - 1)"

definition c_l :: "cell \<Rightarrow> cell" where "c_l c = (fst c - 1, snd c)"
definition c_r :: "cell \<Rightarrow> cell" where "c_r c = (fst c + 1, snd c)"
definition c_t :: "cell \<Rightarrow> cell" where "c_t c = (fst c, snd c - 1)"
definition c_b :: "cell \<Rightarrow> cell" where "c_b c = (fst c, snd c + 1)"

subsection \<open>The generator's state\<close>

text \<open>
  \<open>cell_by_distance\<close> is a \<open>heapq\<close> of tuples \<open>(-d, (x, y))\<close>. The generator only reads
  its least entry (\<open>heap[0]\<close>), pops it and pushes, so the heap is kept as the list of
  its entries in ascending tuple order: the head is \<open>heap[0]\<close>, \<open>heappop\<close> drops the
  head, \<open>heappush\<close> inserts in order.
\<close>

record state =
  cells_visited :: int
  cell_remaining_sides :: "int list"
  cell_distance :: "int list"
  cell_state :: "int list"
  cell_by_distance :: "(int \<times> cell) list"
  q :: "cell list"
  random_state :: rng

definition tuple_less :: "int \<times> cell \<Rightarrow> int \<times> cell \<Rightarrow> bool" where
  "tuple_less a b =
     (fst a < fst b \<or> fst a = fst b \<and>
        (fst (snd a) < fst (snd b) \<or> fst (snd a) = fst (snd b) \<and> snd (snd a) < snd (snd b)))"

fun heappush :: "(int \<times> cell) list \<Rightarrow> int \<times> cell \<Rightarrow> (int \<times> cell) list" where
  "heappush [] e = [e]"
| "heappush (a # heap) e = (if tuple_less e a then e # a # heap else a # heappush heap e)"

text \<open>The initial neighbour counts: 4, then 3 along the four borders, then 2 at the corners.\<close>

fun set_all :: "int list \<Rightarrow> int list \<Rightarrow> int \<Rightarrow> error + int list" where
  "set_all xs [] v = Inr xs"
| "set_all xs (i # is) v = ebind (py_set xs i v) (\<lambda>xs'. set_all xs' is v)"

definition init_remaining_sides :: "int \<Rightarrow> int \<Rightarrow> error + int list" where
  "init_remaining_sides w h =
     ebind (set_all (replicate (nat (w * h)) 4)
              (concat (map (\<lambda>x. [t w (x, 0), t w (x, h - 1)]) [0..w - 1])) 3) (\<lambda>r1.
     ebind (set_all r1
              (concat (map (\<lambda>y. [t w (0, y), t w (w - 1, y)]) [0..h - 1])) 3) (\<lambda>r2.
     set_all r2 [t w (0, 0), t w (w - 1, 0), t w (0, h - 1), t w (w - 1, h - 1)] 2))"

definition is_visited :: "int \<Rightarrow> int list \<Rightarrow> cell \<Rightarrow> bool" where
  "is_visited w dists c = (dists ! nat (t w c) \<noteq> INF_sentinel)"

text \<open>
  \<open>fallback_cell\<close>: the loop over the heap. It returns the cell (\<open>None\<close> when the heap
  runs out, as the Python function falls off its end) and the heap it leaves.
\<close>

fun fallback_cell ::
  "int \<Rightarrow> int list \<Rightarrow> (int \<times> cell) list \<Rightarrow> error + (cell option \<times> (int \<times> cell) list)" where
  "fallback_cell w rs [] = Inr (None, [])"
| "fallback_cell w rs (e # heap) =
     ebind (py_get rs (t w (snd e))) (\<lambda>remaining_sides.
       if remaining_sides > 1 then Inr (Some (snd e), e # heap)
       else if remaining_sides = 1 then Inr (Some (snd e), heap)
       else fallback_cell w rs heap)"

definition dec_side :: "int \<Rightarrow> int \<Rightarrow> cell \<Rightarrow> int list \<Rightarrow> int list" where
  "dec_side w h c rs =
     (if in_bounds w h c then rs[nat (t w c) := rs ! nat (t w c) - 1] else rs)"

definition set_visited :: "int \<Rightarrow> int \<Rightarrow> cell \<Rightarrow> int \<Rightarrow> state \<Rightarrow> error + state" where
  "set_visited w h c d st =
     ebind (py_set (cell_distance st) (t w c) d) (\<lambda>dists.
       Inr (st\<lparr>cells_visited := cells_visited st + 1,
               cell_distance := dists,
               cell_by_distance := heappush (cell_by_distance st) (- d, c),
               cell_remaining_sides :=
                 dec_side w h (c_b c) (dec_side w h (c_t c)
                   (dec_side w h (c_r c) (dec_side w h (c_l c) (cell_remaining_sides st))))\<rparr>))"

definition open_wall :: "int \<Rightarrow> int \<Rightarrow> cell \<Rightarrow> int list \<Rightarrow> error + int list" where
  "open_wall w wall c cs = ebind (py_get cs (t w c)) (\<lambda>v. py_set cs (t w c) (v OR wall))"

definition open_left :: "int \<Rightarrow> cell \<Rightarrow> int list \<Rightarrow> error + int list" where
  "open_left w c cs = open_wall w 1 c cs"

definition open_top :: "int \<Rightarrow> cell \<Rightarrow> int list \<Rightarrow> error + int list" where
  "open_top w c cs = open_wall w 2 c cs"

definition open_right :: "int \<Rightarrow> cell \<Rightarrow> int list \<Rightarrow> error + int list" where
  "open_right w c cs = open_wall w 4 c cs"

definition open_bottom :: "int \<Rightarrow> cell \<Rightarrow> int list \<Rightarrow> error + int list" where
  "open_bottom w c cs = open_wall w 8 c cs"

definition connect :: "int \<Rightarrow> cell \<Rightarrow> cell \<Rightarrow> int list \<Rightarrow> error + int list" where
  "connect w c1 c2 cs =
     (if fst c1 < fst c2 then ebind (open_right w c1 cs) (open_left w c2)
      else if fst c2 < fst c1 then ebind (open_left w c1 cs) (open_right w c2)
      else if snd c1 < snd c2 then ebind (open_bottom w c1 cs) (open_top w c2)
      else if snd c2 < snd c1 then ebind (open_top w c1 cs) (open_bottom w c2)
      else Inr cs)"

definition q_up :: "int \<Rightarrow> int \<Rightarrow> cell \<Rightarrow> int \<Rightarrow> state \<Rightarrow> error + state" where
  "q_up w h c d st = set_visited w h c d (st\<lparr>q := q st @ [c]\<rparr>)"

subsection \<open>Picking the start\<close>

definition pick_start :: "int \<Rightarrow> int \<Rightarrow> state \<Rightarrow> error + (cell \<times> state)" where
  "pick_start w h st =
     ebind (random_choice [True, False] (random_state st)) (\<lambda>(horizontal, g1).
       if horizontal then
         ebind (randint 0 w g1) (\<lambda>(x, g2).
         ebind (random_choice [True, False] g2) (\<lambda>(top, g3).
           if top then
             ebind (open_top w (x, 0) (cell_state st)) (\<lambda>cs.
               Inr ((x, 0), st\<lparr>cell_state := cs, random_state := g3\<rparr>))
           else
             ebind (open_bottom w (x, h - 1) (cell_state st)) (\<lambda>cs.
               Inr ((x, h - 1), st\<lparr>cell_state := cs, random_state := g3\<rparr>))))
       else
         ebind (randint 1 (h - 1) g1) (\<lambda>(y, g2).
         ebind (random_choice [True, False] g2) (\<lambda>(left, g3).
           if left then
             ebind (open_left w (0, y) (cell_state st)) (\<lambda>cs.
               Inr ((0, y), st\<lparr>cell_state := cs, random_state := g3\<rparr>))
           else
             ebind (open_right w (w - 1, y) (cell_state st)) (\<lambda>cs.
               Inr ((w - 1, y), st\<lparr>cell_state := cs, random_state := g3\<rparr>)))))"

subsection \<open>The growth loop\<close>

definition possible_branches :: "int \<Rightarrow> int \<Rightarrow> int list \<Rightarrow> cell \<Rightarrow> cell list" where
  "possible_branches w h dists cc =
     filter (\<lambda>n. in_bounds w h n \<and> \<not> is_visited w dists n) [c_l cc, c_r cc, c_t cc, c_b cc]"

text \<open>
  The branch count: \<open>random.choices\<close> over \<open>range(n + 1)\<close> with the first \<open>n + 1\<close>
  cumulative weights, where \<open>n\<close> is the number of possible branches.
\<close>

definition sample_branch_count :: "pyfloat list \<Rightarrow> nat \<Rightarrow> rng \<Rightarrow> error + (nat \<times> rng)" where
  "sample_branch_count cumulative_brach_dist n g =
     choices [0..<n + 1] (take (n + 1) cumulative_brach_dist) g"

definition force_branch :: "bool \<Rightarrow> nat \<Rightarrow> nat" where
  "force_branch can_terminate branch_count =
     (if \<not> can_terminate \<and> branch_count = 0 then 1 else branch_count)"

text \<open>The \<open>for n in selection\<close> loop: connect the current cell to each pick and queue it.\<close>

fun branch_into :: "int \<Rightarrow> int \<Rightarrow> cell \<Rightarrow> int \<Rightarrow> cell list \<Rightarrow> state \<Rightarrow> error + state" where
  "branch_into w h cc d [] st = Inr st"
| "branch_into w h cc d (n # selection) st =
     ebind (connect w cc n (cell_state st)) (\<lambda>cs.
     ebind (q_up w h n (d + 1) (st\<lparr>cell_state := cs\<rparr>)) (\<lambda>st'.
       branch_into w h cc d selection st'))"

text \<open>
  The head of an iteration. With an empty queue the iteration is a restart: the Python
  appends \<open>fallback_cell()\<close> to the queue and pops it at once, so the queue stays empty
  and the current cell is the fallback; a fallback of \<open>None\<close> raises \<open>TypeError\<close> at
  \<open>t(*cc)\<close>.
\<close>

definition next_cell :: "int \<Rightarrow> state \<Rightarrow> error + (bool \<times> cell \<times> state)" where
  "next_cell w st =
     (case q st of
        [] \<Rightarrow>
          ebind (fallback_cell w (cell_remaining_sides st) (cell_by_distance st)) (\<lambda>(found, heap).
            case found of
              None \<Rightarrow> Inl TypeError
            | Some cc \<Rightarrow> Inr (False, cc, st\<lparr>cell_by_distance := heap\<rparr>))
      | cc # rest \<Rightarrow> Inr (True, cc, st\<lparr>q := rest\<rparr>))"

definition expand :: "int \<Rightarrow> int \<Rightarrow> pyfloat list \<Rightarrow> bool \<Rightarrow> cell \<Rightarrow> state \<Rightarrow> error + state" where
  "expand w h cumulative_brach_dist can_terminate cc st =
     ebind (py_get (cell_distance st) (t w cc)) (\<lambda>d.
       let branches = possible_branches w h (cell_distance st) cc in
       ebind (sample_branch_count cumulative_brach_dist (length branches) (random_state st))
         (\<lambda>(branch_count, g1).
       ebind (sample branches (force_branch can_terminate branch_count) g1) (\<lambda>(selection, g2).
         branch_into w h cc d selection (st\<lparr>random_state := g2\<rparr>))))"

definition growth_step :: "int \<Rightarrow> int \<Rightarrow> pyfloat list \<Rightarrow> state \<Rightarrow> error + state" where
  "growth_step w h cumulative_brach_dist st =
     ebind (next_cell w st) (\<lambda>(can_terminate, cc, st').
       expand w h cumulative_brach_dist can_terminate cc st')"

subsection \<open>Progress of one iteration\<close>

lemma ebind_Inr: "ebind m f = Inr y \<longleftrightarrow> (\<exists>v. m = Inr v \<and> f v = Inr y)"
  by (cases m) (simp_all add: ebind_def)

lemma ebind_Inl: "ebind m f = Inl e \<longleftrightarrow> m = Inl e \<or> (\<exists>v. m = Inr v \<and> f v = Inl e)"
  by (cases m) (simp_all add: ebind_def)

lemma set_visited_counts:
  "set_visited w h c d st = Inr st' \<Longrightarrow>
     cells_visited st' = cells_visited st + 1 \<and> q st' = q st"
  by (auto simp: set_visited_def ebind_Inr)

lemma q_up_counts:
  "q_up w h c d st = Inr st' \<Longrightarrow>
     cells_visited st' = cells_visited st + 1 \<and> q st' = q st @ [c]"
  unfolding q_up_def by (drule set_visited_counts) simp

lemma branch_into_counts:
  "branch_into w h cc d selection st = Inr st' \<Longrightarrow>
     cells_visited st' = cells_visited st + int (length selection) \<and> q st' = q st @ selection"
proof (induction selection arbitrary: st)
  case Nil
  then show ?case by simp
next
  case (Cons n selection)
  from Cons.prems obtain cs st1 where
    up: "q_up w h n (d + 1) (st\<lparr>cell_state := cs\<rparr>) = Inr st1" and
    rest: "branch_into w h cc d selection st1 = Inr st'"
    by (auto simp: ebind_Inr)
  from q_up_counts [OF up] Cons.IH [OF rest] show ?case by simp
qed

lemma sample_pool_length: "length (fst (sample_pool pool m k g)) = k"
proof (induction k arbitrary: pool m g)
  case 0
  show ?case by simp
next
  case (Suc k)
  obtain j g' where rb: "randbelow m g = (j, g')"
    by (cases "randbelow m g")
  obtain xs g'' where rest: "sample_pool (pool[j := pool ! (m - 1)]) (m - 1) k g' = (xs, g'')"
    by (cases "sample_pool (pool[j := pool ! (m - 1)]) (m - 1) k g'")
  from Suc.IH [of "pool[j := pool ! (m - 1)]" "m - 1" g'] rest have "length xs = k"
    by simp
  with rb rest show ?case by simp
qed

lemma sample_length: "sample population k g = Inr (selection, g') \<Longrightarrow> length selection = k"
  using sample_pool_length [of population "length population" k g]
  by (auto simp: sample_def split: if_splits)

lemma expand_counts:
  assumes "expand w h cum can_terminate cc st = Inr st'"
  shows "\<exists>selection. cells_visited st' = cells_visited st + int (length selection)
           \<and> q st' = q st @ selection \<and> (\<not> can_terminate \<longrightarrow> selection \<noteq> [])"
proof -
  from assms obtain d bc g1 selection g2 where
    smp: "sample (possible_branches w h (cell_distance st) cc) (force_branch can_terminate bc) g1
            = Inr (selection, g2)" and
    br: "branch_into w h cc d selection (st\<lparr>random_state := g2\<rparr>) = Inr st'"
    by (auto simp: expand_def ebind_Inr Let_def)
  from sample_length [OF smp] have "\<not> can_terminate \<longrightarrow> selection \<noteq> []"
    by (auto simp: force_branch_def split: if_splits)
  with branch_into_counts [OF br] show ?thesis by auto
qed

lemma next_cell_counts:
  assumes "next_cell w st = Inr (can_terminate, cc, st1)"
  shows "cells_visited st1 = cells_visited st \<and>
         (if q st = [] then \<not> can_terminate \<and> q st1 = []
          else can_terminate \<and> q st = cc # q st1)"
  using assms by (auto simp: next_cell_def ebind_Inr split: list.splits option.splits)

lemma growth_step_progress:
  assumes "growth_step w h cum st = Inr st'"
  shows "cells_visited st < cells_visited st' \<or>
         cells_visited st' = cells_visited st \<and> length (q st') < length (q st)"
proof -
  from assms obtain can_terminate cc st1 where
    nc: "next_cell w st = Inr (can_terminate, cc, st1)" and
    ex: "expand w h cum can_terminate cc st1 = Inr st'"
    by (auto simp: growth_step_def ebind_Inr)
  from expand_counts [OF ex] obtain selection where
    sel: "cells_visited st' = cells_visited st1 + int (length selection)"
         "q st' = q st1 @ selection" "\<not> can_terminate \<longrightarrow> selection \<noteq> []"
    by blast
  from next_cell_counts [OF nc] sel show ?thesis
    by (cases selection) (auto split: if_splits)
qed

text \<open>The \<open>while cells_visited < cell_count\<close> loop.\<close>

function growth_loop :: "int \<Rightarrow> int \<Rightarrow> pyfloat list \<Rightarrow> state \<Rightarrow> error + state" where
  "growth_loop w h cum st =
     (if cells_visited st < w * h then
        (case growth_step w h cum st of
           Inl e \<Rightarrow> Inl e
         | Inr st' \<Rightarrow> growth_loop w h cum st')
      else Inr st)"
  by pat_completeness auto
termination
proof (relation "measures [\<lambda>(w, h, cum, st). nat (w * h - cells_visited st),
                           \<lambda>(w, h, cum, st). length (q st)]")
  show "wf (measures [\<lambda>(w, h, cum, st). nat (w * h - cells_visited st),
                      \<lambda>(w, h, cum, st). length (q st)])"
    by simp
next
  fix w h :: int and cum :: "pyfloat list" and st st' :: state
  assume "cells_visited st < w * h" and "growth_step w h cum st = Inr st'"
  with growth_step_progress [of w h cum st st']
  show "((w, h, cum, st'), (w, h, cum, st))
          \<in> measures [\<lambda>(w, h, cum, st). nat (w * h - cells_visited st),
                       \<lambda>(w, h, cum, st). length (q st)]"
    by auto
qed

declare growth_loop.simps [simp del]

subsection \<open>Punching out the exit\<close>

definition exit_candidates :: "int \<Rightarrow> int \<Rightarrow> int list \<Rightarrow> int \<Rightarrow> cell list" where
  "exit_candidates w h dists min_exit_distance =
     concat (map (\<lambda>x. concat (map (\<lambda>y.
         if is_border w h (x, y) \<and> dists ! nat (t w (x, y)) > min_exit_distance
         then [(x, y)] else []) [0..h - 1])) [0..w - 1])"

definition open_exit :: "int \<Rightarrow> int \<Rightarrow> cell \<Rightarrow> int list \<Rightarrow> error + int list" where
  "open_exit w h last_border_cell cs =
     (if fst last_border_cell = 0 then open_left w last_border_cell cs
      else if snd last_border_cell = 0 then open_top w last_border_cell cs
      else if fst last_border_cell = w - 1 then open_right w last_border_cell cs
      else if snd last_border_cell = h - 1 then open_bottom w last_border_cell cs
      else Inr cs)"

definition min_exit_distance :: "int \<Rightarrow> int \<Rightarrow> int \<Rightarrow> int" where
  "min_exit_distance w h min_length = (if min_length > 0 then min_length else min w h)"

text \<open>
  \<open>random.choice\<close> on an empty candidate list raises \<open>IndexError\<close>; the handler prints
  the message below and calls \<open>exit()\<close>, so no \<open>Maze\<close> is returned.
\<close>

definition no_exit_message :: string where
  "no_exit_message = ''Could not find a path with min distance specified''"

definition punch_exit :: "int \<Rightarrow> int \<Rightarrow> int \<Rightarrow> state \<Rightarrow> error + state" where
  "punch_exit w h min_length st =
     (case random_choice
             (exit_candidates w h (cell_distance st) (min_exit_distance w h min_length))
             (random_state st) of
        Inl e \<Rightarrow> (if e = IndexError then Inl (SystemExit no_exit_message) else Inl e)
      | Inr (last_border_cell, g) \<Rightarrow>
          ebind (open_exit w h last_border_cell (cell_state st)) (\<lambda>cs.
            Inr (st\<lparr>cell_state := cs, random_state := g\<rparr>)))"

subsection \<open>\<open>gen_maze\<close>\<close>

record Maze =
  maze :: "int list"
  width :: int
  height :: int

definition initial_state :: "int \<Rightarrow> int \<Rightarrow> rng \<Rightarrow> error + state" where
  "initial_state w h g =
     ebind (init_remaining_sides w h) (\<lambda>rs.
       Inr \<lparr>cells_visited = 0,
            cell_remaining_sides = rs,
            cell_distance = replicate (nat (w * h)) INF_sentinel,
            cell_state = replicate (nat (w * h)) 0,
            cell_by_distance = [],
            q = [],
            random_state = g\<rparr>)"

text \<open>Everything up to the end of the growth loop.\<close>

definition grow :: "int \<Rightarrow> int \<Rightarrow> pyfloat list \<Rightarrow> rng \<Rightarrow> error + state" where
  "grow w h branch_dist g =
     ebind (initial_state w h g) (\<lambda>st0.
     ebind (pick_start w h st0) (\<lambda>(start, st1).
     ebind (q_up w h start 0 st1) (\<lambda>st2.
       growth_loop w h (accumulate branch_dist) st2)))"

definition gen_maze_state :: "int \<Rightarrow> int \<Rightarrow> pyfloat list \<Rightarrow> int \<Rightarrow> rng \<Rightarrow> error + state" where
  "gen_maze_state w h branch_dist min_length g =
     ebind (grow w h branch_dist g) (punch_exit w h min_length)"

definition gen_maze :: "int \<Rightarrow> int \<Rightarrow> pyfloat list \<Rightarrow> int \<Rightarrow> rng \<Rightarrow> error + Maze" where
  "gen_maze w h branch_dist min_length g =
     ebind (gen_maze_state w h branch_dist min_length g) (\<lambda>st.
       Inr \<lparr>maze = cell_state st, width = w, height = h\<rparr>)"

section \<open>Facts about the helpers\<close>

lemma in_bounds_index:
  assumes "in_bounds w h c"
  shows "0 \<le> t w c \<and> t w c < w * h"
proof -
  from assms have x: "0 \<le> fst c" "fst c < w" and y: "0 \<le> snd c" "snd c + 1 \<le> h"
    by (simp_all add: in_bounds_def)
  from x have w: "0 \<le> w" by simp
  from w y(1) have "0 \<le> w * snd c" by simp
  moreover from w y(2) have "w * (snd c + 1) \<le> w * h" by (rule mult_left_mono [rotated])
  then have "w * snd c + w \<le> w * h" by (simp add: distrib_left)
  ultimately show ?thesis using x by (simp add: t_def)
qed

lemma py_index_in_bounds:
  "in_bounds w h c \<Longrightarrow> py_index (nat (w * h)) (t w c) = Some (nat (t w c))"
  using in_bounds_index [of w h c] by (simp add: py_index_def)

lemma set_heappush: "set (heappush heap e) = insert e (set heap)"
  by (induction heap) auto

lemma randbelow_less: "0 < m \<Longrightarrow> fst (randbelow m g) < m"
  by (cases "draw g") (simp add: randbelow_def nat_less_iff)

lemma nth_in_take: "i < m \<Longrightarrow> m \<le> length xs \<Longrightarrow> xs ! i \<in> set (take m xs)"
proof -
  assume a: "i < m" "m \<le> length xs"
  then have "i < length (take m xs)" by simp
  from nth_mem [OF this] a show ?thesis by simp
qed

lemma sample_pool_subset:
  "k \<le> m \<Longrightarrow> m \<le> length pool \<Longrightarrow> set (fst (sample_pool pool m k g)) \<subseteq> set (take m pool)"
proof (induction k arbitrary: pool m g)
  case 0
  show ?case by simp
next
  case (Suc k)
  obtain j g' where rb: "randbelow m g = (j, g')"
    by (cases "randbelow m g")
  let ?pool = "pool[j := pool ! (m - 1)]"
  obtain xs g'' where rest: "sample_pool ?pool (m - 1) k g' = (xs, g'')"
    by (cases "sample_pool ?pool (m - 1) k g'")
  from Suc.prems have m: "0 < m" by simp
  with randbelow_less [of m g] rb have j: "j < m" by simp
  with Suc.prems have here: "pool ! j \<in> set (take m pool)"
    by (simp add: nth_in_take)
  from Suc.prems have "k \<le> m - 1" "m - 1 \<le> length ?pool" by simp_all
  from Suc.IH [OF this, of g'] rest have "set xs \<subseteq> set (take (m - 1) ?pool)" by simp
  moreover have "set (take (m - 1) ?pool) \<subseteq> set (take m pool)"
  proof
    fix x assume "x \<in> set (take (m - 1) ?pool)"
    then obtain i where i: "i < m - 1" "i < length pool" "x = ?pool ! i"
      by (auto simp: in_set_conv_nth)
    show "x \<in> set (take m pool)"
    proof (cases "i = j")
      case True
      with i have "x = pool ! (m - 1)" by simp
      moreover from m have "m - 1 < m" by simp
      ultimately show ?thesis using Suc.prems(2) by (simp add: nth_in_take)
    next
      case False
      with i have "x = pool ! i" "i < m" by simp_all
      with Suc.prems(2) show ?thesis by (simp add: nth_in_take)
    qed
  qed
  ultimately show ?case using rb rest here by auto
qed

lemma sample_subset:
  "sample population k g = Inr (selection, g') \<Longrightarrow> set selection \<subseteq> set population"
  using sample_pool_subset [of k "length population" population g]
  by (auto simp: sample_def split: if_splits)

lemma expand_selection:
  assumes "expand w h cum can_terminate cc st = Inr st'"
  shows "\<exists>selection. cells_visited st' = cells_visited st + int (length selection)
           \<and> q st' = q st @ selection \<and> (\<not> can_terminate \<longrightarrow> selection \<noteq> [])
           \<and> set selection \<subseteq> set (possible_branches w h (cell_distance st) cc)"
proof -
  from assms obtain d bc g1 selection g2 where
    smp: "sample (possible_branches w h (cell_distance st) cc) (force_branch can_terminate bc) g1
            = Inr (selection, g2)" and
    br: "branch_into w h cc d selection (st\<lparr>random_state := g2\<rparr>) = Inr st'"
    by (auto simp: expand_def ebind_Inr Let_def)
  from sample_length [OF smp] have "\<not> can_terminate \<longrightarrow> selection \<noteq> []"
    by (auto simp: force_branch_def split: if_splits)
  with branch_into_counts [OF br] sample_subset [OF smp] show ?thesis by auto
qed

lemma possible_branches_unvisited:
  assumes "n \<in> set (possible_branches w h dists cc)"
  shows "in_bounds w h n \<and> dists ! nat (t w n) = INF_sentinel
           \<and> n \<in> set [c_l cc, c_r cc, c_t cc, c_b cc]"
proof -
  let ?P = "\<lambda>n. in_bounds w h n \<and> \<not> is_visited w dists n"
  from assms have "n \<in> set (filter ?P [c_l cc, c_r cc, c_t cc, c_b cc])"
    by (simp only: possible_branches_def)
  then have "n \<in> set [c_l cc, c_r cc, c_t cc, c_b cc] \<and> ?P n"
    by (simp only: set_filter mem_Collect_eq simp_thms)
  then show ?thesis by (simp add: is_visited_def)
qed

text \<open>The loop ends only when the count of visits has reached the number of cells.\<close>

lemma growth_loop_exit:
  "growth_loop w h cum st = Inr st' \<Longrightarrow> w * h \<le> cells_visited st'"
proof (induction w h cum st rule: growth_loop.induct)
  case (1 w h cum st)
  show ?case
  proof (cases "cells_visited st < w * h")
    case False
    with "1.prems" show ?thesis by (simp add: growth_loop.simps [of w h cum st])
  next
    case True
    with "1.prems" obtain st1 where
      step: "growth_step w h cum st = Inr st1" and rest: "growth_loop w h cum st1 = Inr st'"
      by (auto simp: growth_loop.simps [of w h cum st] split: sum.splits)
    from "1.IH" [OF True step rest] show ?thesis .
  qed
qed

text \<open>A property that every iteration keeps holds when the loop ends.\<close>

lemma growth_loop_invariant:
  "(\<And>st st'. P st \<Longrightarrow> cells_visited st < w * h \<Longrightarrow>
       growth_step w h cum st = Inr st' \<Longrightarrow> P st') \<Longrightarrow>
   P st \<Longrightarrow> growth_loop w h cum st = Inr st' \<Longrightarrow> P st'"
proof (induction w h cum st rule: growth_loop.induct)
  case (1 w h cum st)
  show ?case
  proof (cases "cells_visited st < w * h")
    case False
    with "1.prems"(2,3) show ?thesis by (simp add: growth_loop.simps [of w h cum st])
  next
    case True
    with "1.prems"(3) obtain st1 where
      s1: "growth_step w h cum st = Inr st1" and rest: "growth_loop w h cum st1 = Inr st'"
      by (auto simp: growth_loop.simps [of w h cum st] split: sum.splits)
    from "1.prems"(1) [OF "1.prems"(2) True s1] have "P st1" .
    from "1.IH" [OF True s1 "1.prems"(1) this rest] show ?thesis by simp
  qed
qed

lemma sample_pool_distinct:
  "k \<le> m \<Longrightarrow> m \<le> length pool \<Longrightarrow>
     (\<forall>i < m. \<forall>i' < m. pool ! i = pool ! i' \<longrightarrow> i = i') \<Longrightarrow>
     distinct (fst (sample_pool pool m k g))"
proof (induction k arbitrary: pool m g)
  case 0
  show ?case by simp
next
  case (Suc k)
  obtain j g' where rb: "randbelow m g = (j, g')"
    by (cases "randbelow m g")
  let ?pool = "pool[j := pool ! (m - 1)]"
  obtain xs g'' where rest: "sample_pool ?pool (m - 1) k g' = (xs, g'')"
    by (cases "sample_pool ?pool (m - 1) k g'")
  from Suc.prems have m: "0 < m" by simp
  with randbelow_less [of m g] rb have j: "j < m" by simp
  note inj = Suc.prems(3)
  have nth: "?pool ! i = (if i = j then pool ! (m - 1) else pool ! i)" if "i < m" for i
    using that Suc.prems(2) by (simp add: nth_list_update)
  have inj': "\<forall>i < m - 1. \<forall>i' < m - 1. ?pool ! i = ?pool ! i' \<longrightarrow> i = i'"
  proof (intro allI impI)
    fix i i' assume i: "i < m - 1" and i': "i' < m - 1" and eq: "?pool ! i = ?pool ! i'"
    from i i' have lt: "i < m" "i' < m" "m - 1 < m" by simp_all
    from eq nth [OF lt(1)] nth [OF lt(2)]
    have "(if i = j then pool ! (m - 1) else pool ! i) = (if i' = j then pool ! (m - 1) else pool ! i')"
      by simp
    with inj lt i i' show "i = i'"
      by (metis less_irrefl)
  qed
  from Suc.prems have km: "k \<le> m - 1" "m - 1 \<le> length ?pool" by simp_all
  from Suc.IH [OF km inj', of g'] rest have dxs: "distinct xs" by simp
  from sample_pool_subset [OF km, of g'] rest have sub: "set xs \<subseteq> set (take (m - 1) ?pool)"
    by simp
  have "pool ! j \<notin> set (take (m - 1) ?pool)"
  proof
    assume "pool ! j \<in> set (take (m - 1) ?pool)"
    then obtain i where i: "i < m - 1" "?pool ! i = pool ! j"
      using km(2) by (auto simp: in_set_conv_nth)
    then have lt: "i < m" "m - 1 < m" by simp_all
    from i(2) nth [OF lt(1)] have "(if i = j then pool ! (m - 1) else pool ! i) = pool ! j"
      by simp
    with inj lt j i(1) show False
      by (metis less_irrefl)
  qed
  with sub have "pool ! j \<notin> set xs" by blast
  with dxs rb rest show ?case by simp
qed

lemma sample_distinct:
  assumes "sample population k g = Inr (selection, g')" and "distinct population"
  shows "distinct selection"
proof -
  from assms(2) have "\<forall>i < length population. \<forall>i' < length population.
      population ! i = population ! i' \<longrightarrow> i = i'"
    by (simp add: nth_eq_iff_index_eq)
  from sample_pool_distinct [OF _ le_refl this, of k g] assms(1) show ?thesis
    by (auto simp: sample_def split: if_splits)
qed

lemma distinct_possible_branches: "distinct (possible_branches w h dists cc)"
  unfolding possible_branches_def
  by (rule distinct_filter) (simp add: c_l_def c_r_def c_t_def c_b_def prod_eq_iff)

lemma t_inject:
  assumes "in_bounds w h a" and "in_bounds w h b" and "t w a = t w b"
  shows "a = b"
proof -
  from assms(1,2) have a: "0 \<le> fst a" "fst a < w" and b: "0 \<le> fst b" "fst b < w"
    by (simp_all add: in_bounds_def)
  from assms(3) have eq: "w * snd a + fst a = w * snd b + fst b"
    by (simp add: t_def)
  from a have "(w * snd a + fst a) div w = snd a" by simp
  moreover from b have "(w * snd b + fst b) div w = snd b" by simp
  ultimately have y: "snd a = snd b" using eq by simp
  with eq have "fst a = fst b" by simp
  with y show ?thesis by (simp add: prod_eq_iff)
qed

section \<open>What holds of the distances while the maze grows\<close>

text \<open>
  \<open>dist_inv\<close>: the distance array has one entry per cell, \<open>cells_visited\<close> counts the
  entries that are set, and every distance that is set is below that count.
  \<open>queue_inv\<close>: every cell in the queue and in the heap has its distance set.
\<close>

definition dist_inv :: "int \<Rightarrow> int \<Rightarrow> state \<Rightarrow> bool" where
  "dist_inv w h st =
     (length (cell_distance st) = nat (w * h) \<and>
      cells_visited st = int (card {i. i < nat (w * h) \<and> cell_distance st ! i \<noteq> INF_sentinel}) \<and>
      (\<forall>i < nat (w * h). cell_distance st ! i \<noteq> INF_sentinel \<longrightarrow>
          0 \<le> cell_distance st ! i \<and> cell_distance st ! i < cells_visited st))"

definition queue_inv :: "int \<Rightarrow> int \<Rightarrow> state \<Rightarrow> bool" where
  "queue_inv w h st =
     (\<forall>c \<in> set (q st) \<union> snd ` set (cell_by_distance st).
        \<exists>i. py_index (nat (w * h)) (t w c) = Some i \<and> cell_distance st ! i \<noteq> INF_sentinel)"

lemma dist_inv_update [simp]:
  "dist_inv w h (st\<lparr>q := x\<rparr>) = dist_inv w h st"
  "dist_inv w h (st\<lparr>cell_state := cs\<rparr>) = dist_inv w h st"
  "dist_inv w h (st\<lparr>random_state := g\<rparr>) = dist_inv w h st"
  "dist_inv w h (st\<lparr>cell_by_distance := heap\<rparr>) = dist_inv w h st"
  by (simp_all add: dist_inv_def)

lemma queue_inv_update [simp]:
  "queue_inv w h (st\<lparr>cell_state := cs\<rparr>) = queue_inv w h st"
  "queue_inv w h (st\<lparr>random_state := g\<rparr>) = queue_inv w h st"
  by (simp_all add: queue_inv_def)

lemma py_index_less: "py_index n i = Some j \<Longrightarrow> j < n"
  by (auto simp: py_index_def split: if_splits)

lemma set_visited_fresh:
  assumes inv: "dist_inv w h st" and size: "w * h \<le> 2 ^ 62"
    and idx: "py_index (nat (w * h)) (t w c) = Some i"
    and fresh: "cell_distance st ! i = INF_sentinel"
    and d: "0 \<le> d" "d \<le> cells_visited st"
    and res: "set_visited w h c d st = Inr st'"
  shows "dist_inv w h st' \<and> cell_distance st' = (cell_distance st)[i := d] \<and> d \<noteq> INF_sentinel
         \<and> q st' = q st \<and> cell_state st' = cell_state st
         \<and> set (cell_by_distance st') = insert (- d, c) (set (cell_by_distance st))"
proof -
  let ?N = "nat (w * h)"
  let ?V = "{j. j < ?N \<and> cell_distance st ! j \<noteq> INF_sentinel}"
  let ?dist = "(cell_distance st)[i := d]"
  from inv have len: "length (cell_distance st) = ?N"
    and count: "cells_visited st = int (card ?V)"
    and below: "\<forall>j < ?N. cell_distance st ! j \<noteq> INF_sentinel \<longrightarrow>
                  0 \<le> cell_distance st ! j \<and> cell_distance st ! j < cells_visited st"
    unfolding dist_inv_def by blast+
  from py_index_less [OF idx] have i: "i < ?N" .
  have fin: "finite ?V" by simp
  from fresh i have "?V \<subseteq> {..<?N} - {i}" by auto
  then have "card ?V \<le> card ({..<?N} - {i})" by (intro card_mono) simp_all
  with i have "card ?V < ?N" by simp
  then have "int (card ?V) < int ?N" by (simp only: of_nat_less_iff)
  moreover have "int ?N = w * h"
  proof -
    from i have "0 < ?N" by simp
    then have "0 < w * h" by (simp only: zero_less_nat_eq)
    then show ?thesis by simp
  qed
  ultimately have cv: "cells_visited st < w * h" using count by simp
  with d size have dINF: "d \<noteq> INF_sentinel" by (simp add: INF_sentinel_def)
  from res idx len have st': "st' = st\<lparr>cells_visited := cells_visited st + 1,
               cell_distance := ?dist,
               cell_by_distance := heappush (cell_by_distance st) (- d, c),
               cell_remaining_sides :=
                 dec_side w h (c_b c) (dec_side w h (c_t c)
                   (dec_side w h (c_r c) (dec_side w h (c_l c) (cell_remaining_sides st))))\<rparr>"
    by (simp add: set_visited_def py_set_def ebind_def)
  have V': "{j. j < ?N \<and> ?dist ! j \<noteq> INF_sentinel} = insert i ?V"
    using i len dINF by (auto simp: nth_list_update)
  from fresh have "i \<notin> ?V" by simp
  with fin have card': "card (insert i ?V) = card ?V + 1" by simp
  have "dist_inv w h st'"
    unfolding dist_inv_def
  proof (intro conjI allI impI)
    show "length (cell_distance st') = ?N" using st' len by simp
    show "cells_visited st' = int (card {j. j < ?N \<and> cell_distance st' ! j \<noteq> INF_sentinel})"
      using st' V' card' count by simp
  next
    fix j assume j: "j < ?N" and v: "cell_distance st' ! j \<noteq> INF_sentinel"
    show "0 \<le> cell_distance st' ! j"
    proof (cases "j = i")
      case True
      with st' len i d show ?thesis by simp
    next
      case False
      with st' v j below show ?thesis by simp
    qed
    show "cell_distance st' ! j < cells_visited st'"
    proof (cases "j = i")
      case True
      with st' len i d show ?thesis by simp
    next
      case False
      with st' v j below have "cell_distance st' ! j < cells_visited st" by simp
      with st' show ?thesis by simp
    qed
  qed
  with st' dINF show ?thesis by (simp add: set_heappush)
qed

lemma q_up_fresh:
  assumes inv: "dist_inv w h st" "queue_inv w h st" and size: "w * h \<le> 2 ^ 62"
    and idx: "py_index (nat (w * h)) (t w c) = Some i"
    and fresh: "cell_distance st ! i = INF_sentinel"
    and d: "0 \<le> d" "d \<le> cells_visited st"
    and res: "q_up w h c d st = Inr st'"
  shows "dist_inv w h st' \<and> queue_inv w h st' \<and> cell_distance st' = (cell_distance st)[i := d]
         \<and> cells_visited st' = cells_visited st + 1"
proof -
  let ?st = "st\<lparr>q := q st @ [c]\<rparr>"
  from inv(1) have inv1: "dist_inv w h ?st" by simp
  from res have res1: "set_visited w h c d ?st = Inr st'" by (simp add: q_up_def)
  from set_visited_fresh [OF inv1 size idx _ _ _ res1] fresh d
  have new: "dist_inv w h st'" "cell_distance st' = (cell_distance st)[i := d]"
    "d \<noteq> INF_sentinel" "q st' = q st @ [c]"
    "set (cell_by_distance st') = insert (- d, c) (set (cell_by_distance st))"
    by simp_all
  from inv(1) have len: "length (cell_distance st) = nat (w * h)"
    unfolding dist_inv_def by blast
  from py_index_less [OF idx] len have i: "i < length (cell_distance st)" by simp
  have "queue_inv w h st'"
    unfolding queue_inv_def
  proof
    fix c' assume "c' \<in> set (q st') \<union> snd ` set (cell_by_distance st')"
    with new have "c' = c \<or> c' \<in> set (q st) \<union> snd ` set (cell_by_distance st)" by auto
    then show "\<exists>j. py_index (nat (w * h)) (t w c') = Some j \<and> cell_distance st' ! j \<noteq> INF_sentinel"
    proof
      assume "c' = c"
      with idx new i show ?thesis by auto
    next
      assume "c' \<in> set (q st) \<union> snd ` set (cell_by_distance st)"
      with inv(2) obtain j where
        j: "py_index (nat (w * h)) (t w c') = Some j" "cell_distance st ! j \<noteq> INF_sentinel"
        unfolding queue_inv_def by blast
      with fresh have "j \<noteq> i" by auto
      with j new show ?thesis by auto
    qed
  qed
  moreover from set_visited_counts [OF res1] have "cells_visited st' = cells_visited st + 1"
    by simp
  ultimately show ?thesis using new by simp
qed

lemma connect_keeps_invariants:
  "dist_inv w h (st\<lparr>cell_state := cs\<rparr>) = dist_inv w h st"
  "queue_inv w h (st\<lparr>cell_state := cs\<rparr>) = queue_inv w h st"
  by simp_all

lemma branch_into_inv:
  assumes size: "w * h \<le> 2 ^ 62"
  shows "dist_inv w h st \<Longrightarrow> queue_inv w h st \<Longrightarrow> distinct selection \<Longrightarrow>
     \<forall>n \<in> set selection. in_bounds w h n \<and> cell_distance st ! nat (t w n) = INF_sentinel \<Longrightarrow>
     0 \<le> d \<Longrightarrow> d < cells_visited st \<Longrightarrow>
     branch_into w h cc d selection st = Inr st' \<Longrightarrow>
     dist_inv w h st' \<and> queue_inv w h st'"
proof (induction selection arbitrary: st)
  case Nil
  then show ?case by simp
next
  case (Cons n selection)
  from Cons.prems(7) obtain cs st1 where
    up: "q_up w h n (d + 1) (st\<lparr>cell_state := cs\<rparr>) = Inr st1" and
    rest: "branch_into w h cc d selection st1 = Inr st'"
    by (auto simp: ebind_Inr)
  let ?st = "st\<lparr>cell_state := cs\<rparr>"
  from Cons.prems(4) have n: "in_bounds w h n" "cell_distance st ! nat (t w n) = INF_sentinel"
    by simp_all
  from Cons.prems(1,2) have inv: "dist_inv w h ?st" "queue_inv w h ?st" by simp_all
  from n(2) have fresh: "cell_distance ?st ! nat (t w n) = INF_sentinel" by simp
  from Cons.prems(5,6) have d: "0 \<le> d + 1" "d + 1 \<le> cells_visited ?st" by simp_all
  from q_up_fresh [OF inv size py_index_in_bounds [OF n(1)] fresh d up]
  have st1: "dist_inv w h st1" "queue_inv w h st1"
    "cell_distance st1 = (cell_distance st)[nat (t w n) := d + 1]"
    "cells_visited st1 = cells_visited st + 1"
    by simp_all
  have "\<forall>n' \<in> set selection. in_bounds w h n' \<and> cell_distance st1 ! nat (t w n') = INF_sentinel"
  proof
    fix n' assume n': "n' \<in> set selection"
    with Cons.prems(4) have b: "in_bounds w h n'"
      and f: "cell_distance st ! nat (t w n') = INF_sentinel" by simp_all
    from n' Cons.prems(3) have "n' \<noteq> n" by auto
    with t_inject [OF b n(1)] have "t w n' \<noteq> t w n" by blast
    moreover from in_bounds_index [OF b] in_bounds_index [OF n(1)]
    have "0 \<le> t w n'" "0 \<le> t w n" by simp_all
    ultimately have "nat (t w n') \<noteq> nat (t w n)" by simp
    with st1(3) f b show "in_bounds w h n' \<and> cell_distance st1 ! nat (t w n') = INF_sentinel"
      by simp
  qed
  moreover from Cons.prems(3) have "distinct selection" by simp
  moreover from Cons.prems(6) st1(4) have "d < cells_visited st1" by simp
  ultimately show ?case
    using Cons.IH [OF st1(1,2) _ _ Cons.prems(5) _ rest] by blast
qed

lemma fallback_cell_subset:
  "fallback_cell w rs heap = Inr (Some cc, heap') \<Longrightarrow>
     set heap' \<subseteq> set heap \<and> cc \<in> snd ` set heap"
proof (induction heap)
  case Nil
  then show ?case by simp
next
  case (Cons e heap)
  from Cons.prems obtain r :: int where
    res: "(if 1 < r then Inr (Some (snd e), e # heap)
           else if r = 1 then Inr (Some (snd e), heap)
           else fallback_cell w rs heap) = Inr (Some cc, heap')"
    by (auto simp: ebind_Inr)
  show ?case
  proof (cases "1 < r")
    case True
    with res have "cc = snd e" "heap' = e # heap" by simp_all
    then show ?thesis by simp
  next
    case False
    show ?thesis
    proof (cases "r = 1")
      case True
      with res have "cc = snd e" "heap' = heap" by simp_all
      then show ?thesis by (simp add: subset_insertI)
    next
      case other: False
      with False res have "fallback_cell w rs heap = Inr (Some cc, heap')" by simp
      from Cons.IH [OF this] have "set heap' \<subseteq> set heap" "cc \<in> snd ` set heap" by simp_all
      then show ?thesis by (simp add: subset_insertI2)
    qed
  qed
qed

lemma growth_step_inv:
  assumes size: "w * h \<le> 2 ^ 62"
    and inv: "dist_inv w h st" "queue_inv w h st"
    and res: "growth_step w h cum st = Inr st'"
  shows "dist_inv w h st' \<and> queue_inv w h st'"
proof -
  from res obtain can_terminate cc st1 where
    nc: "next_cell w st = Inr (can_terminate, cc, st1)" and
    ex: "expand w h cum can_terminate cc st1 = Inr st'"
    by (auto simp: growth_step_def ebind_Inr)
  have st1: "dist_inv w h st1 \<and> queue_inv w h st1 \<and> cell_distance st1 = cell_distance st
      \<and> cells_visited st1 = cells_visited st
      \<and> cc \<in> set (q st) \<union> snd ` set (cell_by_distance st)"
  proof (cases "q st")
    case Nil
    with nc obtain heap where
      fb: "fallback_cell w (cell_remaining_sides st) (cell_by_distance st) = Inr (Some cc, heap)"
      and eq: "st1 = st\<lparr>cell_by_distance := heap\<rparr>"
      by (auto simp: next_cell_def ebind_Inr split: option.splits)
    from fallback_cell_subset [OF fb] inv(2) eq have "queue_inv w h st1"
      unfolding queue_inv_def by auto
    with fallback_cell_subset [OF fb] inv(1) eq show ?thesis by simp
  next
    case (Cons a rest)
    with nc have eq: "cc = a" "st1 = st\<lparr>q := rest\<rparr>" by (simp_all add: next_cell_def)
    from inv(2) Cons eq have "queue_inv w h st1"
      unfolding queue_inv_def by auto
    with inv(1) Cons eq show ?thesis by simp
  qed
  with inv(2) obtain i where
    i: "py_index (nat (w * h)) (t w cc) = Some i" "cell_distance st ! i \<noteq> INF_sentinel"
    unfolding queue_inv_def by blast
  from inv(1) have len: "length (cell_distance st) = nat (w * h)"
    and below: "\<forall>j < nat (w * h). cell_distance st ! j \<noteq> INF_sentinel \<longrightarrow>
                  0 \<le> cell_distance st ! j \<and> cell_distance st ! j < cells_visited st"
    unfolding dist_inv_def by blast+
  from ex obtain d bc g1 selection g2 where
    d: "py_get (cell_distance st1) (t w cc) = Inr d" and
    smp: "sample (possible_branches w h (cell_distance st1) cc) (force_branch can_terminate bc) g1
            = Inr (selection, g2)" and
    br: "branch_into w h cc d selection (st1\<lparr>random_state := g2\<rparr>) = Inr st'"
    by (auto simp: expand_def ebind_Inr Let_def)
  from d st1 i(1) len have "d = cell_distance st ! i" by (simp add: py_get_def)
  with below i(2) py_index_less [OF i(1)] st1
  have dd: "0 \<le> d" "d < cells_visited (st1\<lparr>random_state := g2\<rparr>)" by simp_all
  from sample_distinct [OF smp distinct_possible_branches] have dis: "distinct selection" .
  have unv: "\<forall>n \<in> set selection. in_bounds w h n
      \<and> cell_distance (st1\<lparr>random_state := g2\<rparr>) ! nat (t w n) = INF_sentinel"
    using sample_subset [OF smp] possible_branches_unvisited [of _ w h "cell_distance st1" cc]
    by auto
  from st1 have "dist_inv w h (st1\<lparr>random_state := g2\<rparr>)" "queue_inv w h (st1\<lparr>random_state := g2\<rparr>)"
    by simp_all
  from branch_into_inv [OF size this dis unv dd br] show ?thesis .
qed

text \<open>
  When the part of \<open>gen_maze\<close> up to the end of the growth loop returns, every cell has
  been visited exactly once: the count of visits is the number of cells and no distance
  is left at the sentinel.
\<close>

lemma grow_coverage:
  assumes res: "grow w h branch_dist g = Inr st" and size: "w * h \<le> 2 ^ 62"
  shows "cells_visited st = w * h \<and> length (cell_distance st) = nat (w * h)
         \<and> (\<forall>i < nat (w * h). cell_distance st ! i \<noteq> INF_sentinel)"
proof -
  let ?N = "nat (w * h)"
  from res obtain st0 start st1 st2 where
    init: "initial_state w h g = Inr st0" and
    pick: "pick_start w h st0 = Inr (start, st1)" and
    up: "q_up w h start 0 st1 = Inr st2" and
    loop: "growth_loop w h (accumulate branch_dist) st2 = Inr st"
    by (auto simp: grow_def ebind_Inr)
  from init have st0: "cells_visited st0 = 0" "cell_distance st0 = replicate ?N INF_sentinel"
    "q st0 = []" "cell_by_distance st0 = []"
    by (auto simp: initial_state_def ebind_Inr)
  from pick have st1: "cells_visited st1 = cells_visited st0" "cell_distance st1 = cell_distance st0"
    "q st1 = q st0" "cell_by_distance st1 = cell_by_distance st0"
    by (auto simp: pick_start_def ebind_Inr split: if_splits)
  from st0 st1 have inv1: "dist_inv w h st1" "queue_inv w h st1"
    by (simp_all add: dist_inv_def queue_inv_def)
  from up obtain i where i: "py_index ?N (t w start) = Some i"
    using st0 st1 by (auto simp: q_up_def set_visited_def ebind_Inr py_set_def split: option.splits)
  from py_index_less [OF i] st0 st1 have fresh: "cell_distance st1 ! i = INF_sentinel" by simp
  from st0 st1 have "(0::int) \<le> 0" "0 \<le> cells_visited st1" by simp_all
  from q_up_fresh [OF inv1 size i fresh this up]
  have inv2: "dist_inv w h st2 \<and> queue_inv w h st2" by simp
  have "dist_inv w h st \<and> queue_inv w h st"
  proof (rule growth_loop_invariant [where P = "\<lambda>s. dist_inv w h s \<and> queue_inv w h s", OF _ inv2 loop])
    fix s s' assume "dist_inv w h s \<and> queue_inv w h s" "growth_step w h (accumulate branch_dist) s = Inr s'"
    then show "dist_inv w h s' \<and> queue_inv w h s'"
      using growth_step_inv [OF size] by blast
  qed
  then have len: "length (cell_distance st) = ?N"
    and count: "cells_visited st = int (card {j. j < ?N \<and> cell_distance st ! j \<noteq> INF_sentinel})"
    unfolding dist_inv_def by blast+
  let ?V = "{j. j < ?N \<and> cell_distance st ! j \<noteq> INF_sentinel}"
  from py_index_less [OF i] have "0 < ?N" by simp
  then have "0 < w * h" by (simp only: zero_less_nat_eq)
  then have N: "int ?N = w * h" by simp
  from growth_loop_exit [OF loop] count N have "?N \<le> card ?V" by simp
  moreover have "?V \<subseteq> {..<?N}" by auto
  then have "card ?V \<le> card {..<?N}" by (intro card_mono) simp_all
  ultimately have card: "card ?V = ?N" by simp
  have "?V = {..<?N}"
    by (rule card_subset_eq) (use card in auto)
  then have "\<forall>j < ?N. cell_distance st ! j \<noteq> INF_sentinel" by blast
  with card count N len show ?thesis by simp
qed

section \<open>The maze as a graph\<close>

text \<open>
  A wall of a cell is open when its bit is set in the cell's mask. Two adjacent cells of
  the grid are joined by an interior edge when each has the wall towards the other open,
  which is what \<open>connect\<close> does to a pair of cells.
\<close>

definition wall_open :: "int list \<Rightarrow> int \<Rightarrow> cell \<Rightarrow> int \<Rightarrow> bool" where
  "wall_open cs w c wall = (cs ! nat (t w c) AND wall \<noteq> 0)"

definition interior_edges :: "Maze \<Rightarrow> (cell \<times> cell) list" where
  "interior_edges m =
     concat (map (\<lambda>y. concat (map (\<lambda>x.
         if wall_open (maze m) (width m) (x, y) 4 \<and> wall_open (maze m) (width m) (x + 1, y) 1
         then [((x, y), (x + 1, y))] else []) [0..width m - 2])) [0..height m - 1]) @
     concat (map (\<lambda>y. concat (map (\<lambda>x.
         if wall_open (maze m) (width m) (x, y) 8 \<and> wall_open (maze m) (width m) (x, y + 1) 2
         then [((x, y), (x, y + 1))] else []) [0..width m - 1])) [0..height m - 2])"

text \<open>The grid neighbours a cell has an open wall to, and those one step nearer the start.\<close>

definition open_neighbours :: "int \<Rightarrow> int \<Rightarrow> int list \<Rightarrow> cell \<Rightarrow> cell list" where
  "open_neighbours w h cs c =
     map snd (filter (\<lambda>(wall, n). in_bounds w h n \<and> wall_open cs w c wall)
       [(1, c_l c), (4, c_r c), (2, c_t c), (8, c_b c)])"

definition parents :: "int \<Rightarrow> int \<Rightarrow> state \<Rightarrow> cell \<Rightarrow> cell list" where
  "parents w h st c =
     filter (\<lambda>n. cell_distance st ! nat (t w n) = cell_distance st ! nat (t w c) - 1)
       (open_neighbours w h (cell_state st) c)"

section \<open>Runs that start outside the grid\<close>

text \<open>
  \<open>random.randint(0, width)\<close> includes \<open>width\<close>, so the start on the top border can be
  \<open>(width, 0)\<close>, one column to the right of the grid. Its index \<open>t(width, 0) = width\<close>
  is the index of the cell \<open>(0, 1)\<close>, which so receives the start's open wall and the
  distance 0 without ever being connected.

  The runs below are on the 2 by 2 grid with the default branch weights
  \<open>(0.3, 0.45, 0.2, 0.05)\<close> and \<open>min_length = 1\<close>. The draws are: the coin for the
  horizontal borders, \<open>randint(0, 2) = 2\<close>, the coin for the top border, one branch
  from the start into \<open>(1, 0)\<close>, two branches from \<open>(1, 0)\<close> into \<open>(0, 0)\<close> and
  \<open>(1, 1)\<close>, and the exit at \<open>(0, 0)\<close>. They are the outcomes of the library
  calls after \<open>random.seed(582)\<close> in CPython 3.11.
\<close>

text \<open>
  Claim C5 (the start is always an in-grid border cell, with one outer wall opened on it
  toward the outside). On the 2 by 2 grid the draws \<open>True, 2, True\<close> give the start
  \<open>(2, 0)\<close>, which is not in bounds; the wall opened is the top wall of the cell at
  index 2, the cell \<open>(0, 1)\<close>, whose top wall faces the cell \<open>(0, 0)\<close>.
\<close>

theorem pick_start_outside_grid:
  "ebind (ebind (initial_state 2 2 [0, 2, 0]) (pick_start 2 2))
     (\<lambda>(start, st). Inr (start, in_bounds 2 2 start, t 2 start, t 2 (0, 1), cell_state st,
                         c_t (0, 1), in_bounds 2 2 (c_t (0, 1))))
   = Inr ((2, 0), False, 2, 2, [0, 0, 2, 0], (0, 0), True)"
  by code_simp

text \<open>
  Claim C1 (whenever \<open>gen_maze\<close> returns a maze, the interior open-wall graph is a
  spanning tree with \<open>cellCount - 1\<close> edges). The run returns the masks
  \<open>[5, 13, 3, 2]\<close>: of the four cells only two pairs are joined, and no interior edge
  touches the cell \<open>(0, 1)\<close>.
\<close>

theorem gen_maze_outside_start_not_spanning:
  "gen_maze 2 2 (map py_float [3 / 10, 9 / 20, 1 / 5, 1 / 20]) 1
     [0, 2, 0, 7573356314991143, 0, 8465791106270669, 0, 0, 0]
     = Inr \<lparr>maze = [5, 13, 3, 2], width = 2, height = 2\<rparr>
   \<and> interior_edges \<lparr>maze = [5, 13, 3, 2], width = 2, height = 2\<rparr>
     = [((0, 0), (1, 0)), ((1, 0), (1, 1))]"
  by code_simp

text \<open>
  Claim C8 (after generation every cell but the start has an open-wall neighbour whose
  distance is one less than its own). In the same run the cell \<open>(1, 0)\<close> ends with
  distance 1; its open-wall neighbours in the grid are \<open>(0, 0)\<close> and \<open>(1, 1)\<close>, both
  at distance 2, so none of them is its parent. The distance 0 sits at index 2, the cell
  \<open>(0, 1)\<close>, which is not adjacent to \<open>(1, 0)\<close>.
\<close>

theorem gen_maze_outside_start_no_parent:
  "ebind (gen_maze_state 2 2 (map py_float [3 / 10, 9 / 20, 1 / 5, 1 / 20]) 1
            [0, 2, 0, 7573356314991143, 0, 8465791106270669, 0, 0, 0])
     (\<lambda>st. Inr (cell_distance st, cell_state st,
                open_neighbours 2 2 (cell_state st) (1, 0), parents 2 2 st (1, 0)))
   = Inr ([2, 1, 0, 2], [5, 13, 3, 2], [(0, 0), (1, 1)], [])"
  by code_simp

section \<open>Runs on a strip\<close>

text \<open>
  On a grid one cell wide the border loops and the corner assignments of the
  initialisation all hit the same cells: the ends of the strip start with 2 remaining
  sides and the cells between with 3, one more than their neighbours in the grid. A cell
  whose neighbours are all visited then still counts one remaining side, \<open>fallback_cell\<close>
  returns it, the restart forces one branch, and \<open>random.sample\<close> is asked for one cell
  out of none.

  The run below is on the 1 by 3 grid with the default branch weights: the start is
  \<open>(0, 1)\<close>, it branches once, into \<open>(0, 0)\<close>, which has no branch left; the queue is
  then empty with \<open>(0, 2)\<close> unvisited. The draws are the outcomes of the library calls
  after \<open>random.seed(7)\<close> in CPython 3.11.
\<close>

text \<open>
  Claim C3 (for every width and height of at least 1 the growth loop terminates with
  every cell visited). On the 1 by 3 grid the loop is left by a \<open>ValueError\<close> in its
  third iteration.
\<close>

theorem growth_loop_raises_on_strip:
  "init_remaining_sides 1 3 = Inr [2, 3, 2] \<and>
   grow 1 3 (map py_float [3 / 10, 9 / 20, 1 / 5, 1 / 20])
     [1, 0, 1, 5863096500449791, 0, 7397381190762048, 847848043607847] = Inl ValueError"
  by code_simp

text \<open>
  Claim C10 (the \<open>k\<close> passed to \<open>random.sample\<close> never exceeds the population, so the
  call cannot fail). After two iterations of the same run the queue is empty and
  \<open>(0, 2)\<close> is unvisited; the restart takes \<open>(0, 0)\<close>, which has no possible branch,
  the sampled branch count 0 is forced to 1, and \<open>sample\<close> of one cell out of the empty
  list raises \<open>ValueError\<close>.
\<close>

theorem sample_exceeds_population_on_strip:
  "ebind (ebind (ebind (ebind
      (initial_state 1 3 [1, 0, 1, 5863096500449791, 0, 7397381190762048, 847848043607847])
      (pick_start 1 3))
      (\<lambda>(start, st). q_up 1 3 start 0 st))
      (growth_step 1 3 (accumulate (map py_float [3 / 10, 9 / 20, 1 / 5, 1 / 20]))))
      (growth_step 1 3 (accumulate (map py_float [3 / 10, 9 / 20, 1 / 5, 1 / 20])))
     = Inr \<lparr>cells_visited = 2, cell_remaining_sides = [1, 2, 1],
            cell_distance = [1, 0, INF_sentinel], cell_state = [8, 6, 0],
            cell_by_distance = [(- 1, (0, 0)), (0, (0, 1))], q = [],
            random_state = [847848043607847]\<rparr>
   \<and> fallback_cell 1 [1, 2, 1] [(- 1, (0, 0)), (0, (0, 1))] = Inr (Some (0, 0), [(0, (0, 1))])
   \<and> possible_branches 1 3 [1, 0, INF_sentinel] (0, 0) = []
   \<and> sample_branch_count (accumulate (map py_float [3 / 10, 9 / 20, 1 / 5, 1 / 20])) 0 [847848043607847]
       = Inr (0, [])
   \<and> force_branch False 0 = 1
   \<and> sample ([] :: cell list) 1 [] = Inl ValueError"
  by code_simp

text \<open>
  Claim C9 (on a strip, of width 1 or of height 1, generation completes for every seed).
  With height 1 the draw for a start on the left or right border is
  \<open>random.randint(1, 0)\<close>, an empty range: when the first coin picks the vertical
  borders, \<open>gen_maze\<close> raises \<open>ValueError\<close> before the growth loop is reached.
\<close>

theorem gen_maze_raises_on_flat_strip:
  "gen_maze 3 1 (map py_float [3 / 10, 9 / 20, 1 / 5, 1 / 20]) (- 1) [1] = Inl ValueError"
  by code_simp

section \<open>States of some runs\<close>

text \<open>
  The states below are taken from runs of the model, and serve as the concrete inputs of
  the theorems that follow. With the default branch weights: \<open>restart_state\<close> is the 3
  by 2 grid after the start \<open>(0,0)\<close> and the path \<open>(1,0), (1,1), (0,1)\<close>, when the queue
  has run empty; \<open>restarted_state\<close> is the state one iteration later, and
  \<open>grown_wide_state\<close> the state when the growth loop of that run has ended, with one
  draw left for the exit. \<open>grown_state\<close> is the 2 by 2 grid when the growth loop has
  ended. With the weights \<open>(0, 1, 0, 0)\<close>: \<open>dead_end_state\<close> is the 2 by 3 grid after
  the start \<open>(0,1)\<close> and the path \<open>(1,1), (1,0), (0,0)\<close>, with \<open>(0,0)\<close> next in the
  queue and no neighbour of it left to visit.
\<close>

definition restart_state :: state where
  "restart_state =
     \<lparr>cells_visited = 4, cell_remaining_sides = [0, 1, 1, 0, 1, 1],
      cell_distance = [0, 1, INF_sentinel, 3, 2, INF_sentinel],
      cell_state = [6, 9, 0, 4, 3, 0],
      cell_by_distance = [(- 3, (0, 1)), (- 2, (1, 1)), (- 1, (1, 0)), (0, (0, 0))],
      q = [], random_state = [0, 0]\<rparr>"

definition restarted_state :: state where
  "restarted_state =
     \<lparr>cells_visited = 5, cell_remaining_sides = [0, 1, 0, 0, 0, 1],
      cell_distance = [0, 1, INF_sentinel, 3, 2, 3],
      cell_state = [6, 9, 0, 4, 7, 1],
      cell_by_distance = [(- 3, (2, 1)), (- 1, (1, 0)), (0, (0, 0))],
      q = [(2, 1)], random_state = []\<rparr>"

definition grown_state :: state where
  "grown_state =
     \<lparr>cells_visited = 4, cell_remaining_sides = [0, 0, 0, 0],
      cell_distance = [0, 1, 1, 2], cell_state = [14, 9, 2, 2],
      cell_by_distance = [(- 2, (1, 1)), (- 1, (0, 1)), (- 1, (1, 0)), (0, (0, 0))],
      q = [(0, 1), (1, 1)], random_state = []\<rparr>"

definition grown_wide_state :: state where
  "grown_wide_state =
     \<lparr>cells_visited = 6, cell_remaining_sides = [0, 0, 0, 0, 0, 0],
      cell_distance = [0, 1, 4, 3, 2, 3], cell_state = [6, 9, 8, 4, 7, 3],
      cell_by_distance = [(- 4, (2, 0)), (- 1, (1, 0)), (0, (0, 0))],
      q = [(2, 0)], random_state = [6]\<rparr>"


section \<open>Facts about the floats\<close>

subsection \<open>The order of the floats\<close>










subsection \<open>Powers of two and the binary exponent\<close>







lemma powi_diff: "(2 :: rat) powi (i - j) = 2 powi i / 2 powi j"
  by (rule power_int_diff) simp







subsection \<open>Rounding to the nearest integer\<close>







subsection \<open>Rounding to a float\<close>

text \<open>The spacing of the floats around a positive rational, and the rounded significand.\<close>

definition quantum :: "rat \<Rightarrow> rat" where
  "quantum x = 2 powi (max (exponent x) (- 1022) - 52)"















text \<open>
  Some values of the rounding, as CPython 3.11 computes them: the default branch weights
  and their running sums, a tie that goes to the even significand and one that goes up,
  and two products.
\<close>

lemma round_double_examples:
  "py_float (3 / 10) = Fin (5404319552844595 / 18014398509481984) \<and>
   py_float (9 / 20) = Fin (8106479329266893 / 18014398509481984) \<and>
   py_float (1 / 5) = Fin (3602879701896397 / 18014398509481984) \<and>
   py_float (1 / 20) = Fin (3602879701896397 / 72057594037927936) \<and>
   fadd (py_float (3 / 10)) (py_float (9 / 20)) = Fin (3 / 4) \<and>
   fadd (Fin (3 / 4)) (py_float (1 / 5)) = Fin (4278419646001971 / 4503599627370496) \<and>
   fadd (fadd (Fin (3 / 4)) (py_float (1 / 5))) (py_float (1 / 20)) = Fin 1 \<and>
   round_double (1 + 1 / 2 ^ 53) = Fin 1 \<and>
   round_double (1 + 3 / 2 ^ 53) = Fin (2251799813685249 / 2251799813685248) \<and>
   fmul (Fin (7505999378950826 / 2 ^ 53)) (Fin 6) = Fin 5 \<and>
   fmul (Fin (7505999378950826 / 2 ^ 53)) (Fin 18) = Fin (8444249301319679 / 562949953421312)"
  by code_simp

subsection \<open>Sums of non-negative floats\<close>







section \<open>The branch sampler\<close>















subsection \<open>The sampled branch count\<close>












section \<open>The restart selector\<close>

definition heap_ordered :: "(int \<times> cell) list \<Rightarrow> bool" where
  "heap_ordered heap = sorted_wrt (\<lambda>a b. \<not> tuple_less b a) heap"

lemma tuple_less_asym: "tuple_less a b \<Longrightarrow> \<not> tuple_less b a"
  by (auto simp: tuple_less_def)

lemma tuple_less_trans_not: "tuple_less e a \<Longrightarrow> \<not> tuple_less x a \<Longrightarrow> \<not> tuple_less x e"
  by (auto simp: tuple_less_def)

lemma heap_ordered_heappush: "heap_ordered heap \<Longrightarrow> heap_ordered (heappush heap e)"
proof (induction heap)
  case Nil
  then show ?case by (simp add: heap_ordered_def)
next
  case (Cons a heap)
  show ?case
  proof (cases "tuple_less e a")
    case True
    with Cons.prems show ?thesis
      by (auto simp: heap_ordered_def dest: tuple_less_asym tuple_less_trans_not)
  next
    case False
    with Cons show ?thesis
      by (auto simp: heap_ordered_def set_heappush)
  qed
qed

lemma heap_ordered_head:
  "heap_ordered (e # heap) \<Longrightarrow> x \<in> set heap \<Longrightarrow> fst e \<le> fst x"
  by (auto simp: heap_ordered_def tuple_less_def)

lemma heap_ordered_tail: "heap_ordered (e # heap) \<Longrightarrow> heap_ordered heap"
  by (simp add: heap_ordered_def)

text \<open>Every step of the generator keeps the heap ordered, so its head is \<open>heap[0]\<close>.\<close>

lemma fallback_cell_heap_ordered:
  "fallback_cell w rs heap = Inr (found, heap') \<Longrightarrow> heap_ordered heap \<Longrightarrow> heap_ordered heap'"
proof (induction heap)
  case Nil
  then show ?case by simp
next
  case (Cons e heap)
  from Cons.prems(1) obtain r :: int where
    res: "(if 1 < r then Inr (Some (snd e), e # heap)
           else if r = 1 then Inr (Some (snd e), heap)
           else fallback_cell w rs heap) = Inr (found, heap')"
    by (auto simp: ebind_Inr)
  then consider "heap' = e # heap" | "heap' = heap"
    | "fallback_cell w rs heap = Inr (found, heap')"
    by (auto split: if_splits)
  then show ?case
  proof cases
    case 1
    with Cons.prems(2) show ?thesis by simp
  next
    case 2
    with heap_ordered_tail [OF Cons.prems(2)] show ?thesis by simp
  next
    case 3
    from Cons.IH [OF 3 heap_ordered_tail [OF Cons.prems(2)]] show ?thesis .
  qed
qed

lemma set_visited_heap_ordered:
  "set_visited w h c d st = Inr st' \<Longrightarrow> heap_ordered (cell_by_distance st) \<Longrightarrow>
     heap_ordered (cell_by_distance st')"
  by (auto simp: set_visited_def ebind_Inr heap_ordered_heappush)

lemma branch_into_heap_ordered:
  "branch_into w h cc d selection st = Inr st' \<Longrightarrow> heap_ordered (cell_by_distance st) \<Longrightarrow>
     heap_ordered (cell_by_distance st')"
proof (induction selection arbitrary: st)
  case Nil
  then show ?case by simp
next
  case (Cons n selection)
  from Cons.prems(1) obtain cs st1 where
    up: "set_visited w h n (d + 1) (st\<lparr>cell_state := cs, q := q st @ [n]\<rparr>) = Inr st1" and
    rest: "branch_into w h cc d selection st1 = Inr st'"
    by (auto simp: ebind_Inr q_up_def)
  from set_visited_heap_ordered [OF up] Cons.prems(2)
  have "heap_ordered (cell_by_distance st1)" by simp
  with Cons.IH [OF rest] show ?case .
qed

lemma growth_step_heap_ordered:
  assumes "growth_step w h cum st = Inr st'" and "heap_ordered (cell_by_distance st)"
  shows "heap_ordered (cell_by_distance st')"
proof -
  from assms(1) obtain can_terminate cc st1 where
    nc: "next_cell w st = Inr (can_terminate, cc, st1)" and
    ex: "expand w h cum can_terminate cc st1 = Inr st'"
    by (auto simp: growth_step_def ebind_Inr)
  have "heap_ordered (cell_by_distance st1)"
  proof (cases "q st")
    case Nil
    with nc obtain heap where
      "fallback_cell w (cell_remaining_sides st) (cell_by_distance st) = Inr (Some cc, heap)"
      "st1 = st\<lparr>cell_by_distance := heap\<rparr>"
      by (auto simp: next_cell_def ebind_Inr split: option.splits)
    with fallback_cell_heap_ordered [OF this(1) assms(2)] show ?thesis by simp
  next
    case (Cons a rest)
    with nc assms(2) show ?thesis by (auto simp: next_cell_def)
  qed
  moreover from ex obtain d selection g2 where
    "branch_into w h cc d selection (st1\<lparr>random_state := g2\<rparr>) = Inr st'"
    by (auto simp: expand_def ebind_Inr Let_def)
  ultimately show ?thesis
    using branch_into_heap_ordered [of w h cc d selection "st1\<lparr>random_state := g2\<rparr>" st']
    by simp
qed

lemma restart_step:
  assumes "q st = []" and "growth_step w h cum st = Inr st'"
  shows "\<exists>cc heap selection.
           fallback_cell w (cell_remaining_sides st) (cell_by_distance st) = Inr (Some cc, heap)
           \<and> expand w h cum False cc (st\<lparr>cell_by_distance := heap\<rparr>) = Inr st'
           \<and> selection \<noteq> [] \<and> q st' = selection
           \<and> set selection \<subseteq> set (possible_branches w h (cell_distance st) cc)
           \<and> cells_visited st' = cells_visited st + int (length selection)"
proof -
  from assms(2) obtain can_terminate cc st1 where
    nc: "next_cell w st = Inr (can_terminate, cc, st1)" and
    ex: "expand w h cum can_terminate cc st1 = Inr st'"
    by (auto simp: growth_step_def ebind_Inr)
  from nc assms(1) obtain heap where
    fb: "fallback_cell w (cell_remaining_sides st) (cell_by_distance st) = Inr (Some cc, heap)"
    and ct: "\<not> can_terminate" and st1: "st1 = st\<lparr>cell_by_distance := heap\<rparr>"
    by (auto simp: next_cell_def ebind_Inr split: option.splits)
  from expand_selection [OF ex] ct obtain selection where
    "cells_visited st' = cells_visited st1 + int (length selection)"
    "q st' = q st1 @ selection" "selection \<noteq> []"
    "set selection \<subseteq> set (possible_branches w h (cell_distance st1) cc)"
    by blast
  with fb ex ct st1 assms(1) show ?thesis by auto
qed

text \<open>
  Claim C7. The head \<open>(k, c)\<close> of the ordered heap is the entry of the largest distance
  (the key is the negated distance). \<open>fallback_cell\<close> returns its cell and keeps the
  entry when the cell has more than one remaining side, returns the cell and pops the
  entry when it has exactly one, and pops the entry and goes on with the rest of the heap
  when it has none. An iteration that starts with an empty queue takes its current cell
  from \<open>fallback_cell\<close> and expands it with \<open>can_terminate\<close> false; when it
  completes, it has branched into at least one cell: the queue holds exactly the cells it
  visited, all of them possible branches of that cell. The branch count passed on by a
  restart is never 0.
\<close>

theorem restart_selector:
  assumes "heap_ordered ((k, c) # heap)"
    and "py_get rs (t w c) = Inr remaining_sides"
  shows "(\<forall>e \<in> set heap. - fst e \<le> - k)
     \<and> (1 < remaining_sides \<longrightarrow>
          fallback_cell w rs ((k, c) # heap) = Inr (Some c, (k, c) # heap))
     \<and> (remaining_sides = 1 \<longrightarrow> fallback_cell w rs ((k, c) # heap) = Inr (Some c, heap))
     \<and> (remaining_sides = 0 \<longrightarrow> fallback_cell w rs ((k, c) # heap) = fallback_cell w rs heap)
     \<and> (q st = [] \<and> cell_remaining_sides st = rs \<and> cell_by_distance st = (k, c) # heap
          \<and> growth_step w h cum st = Inr st' \<longrightarrow>
          (\<exists>cc heap' selection.
              fallback_cell w rs ((k, c) # heap) = Inr (Some cc, heap')
              \<and> expand w h cum False cc (st\<lparr>cell_by_distance := heap'\<rparr>) = Inr st'
              \<and> selection \<noteq> [] \<and> q st' = selection
              \<and> set selection \<subseteq> set (possible_branches w h (cell_distance st) cc)
              \<and> cells_visited st' = cells_visited st + int (length selection)))
     \<and> 1 \<le> force_branch False branch_count"
proof -
  have "\<forall>e \<in> set heap. - fst e \<le> - k"
    using heap_ordered_head [OF assms(1)] by auto
  moreover have "1 < remaining_sides \<longrightarrow>
      fallback_cell w rs ((k, c) # heap) = Inr (Some c, (k, c) # heap)"
    using assms(2) by (simp add: ebind_def)
  moreover have "remaining_sides = 1 \<longrightarrow>
      fallback_cell w rs ((k, c) # heap) = Inr (Some c, heap)"
    using assms(2) by (simp add: ebind_def)
  moreover have "remaining_sides = 0 \<longrightarrow>
      fallback_cell w rs ((k, c) # heap) = fallback_cell w rs heap"
    using assms(2) by (simp add: ebind_def)
  moreover have "q st = [] \<and> cell_remaining_sides st = rs \<and> cell_by_distance st = (k, c) # heap
          \<and> growth_step w h cum st = Inr st' \<longrightarrow>
          (\<exists>cc heap' selection.
              fallback_cell w rs ((k, c) # heap) = Inr (Some cc, heap')
              \<and> expand w h cum False cc (st\<lparr>cell_by_distance := heap'\<rparr>) = Inr st'
              \<and> selection \<noteq> [] \<and> q st' = selection
              \<and> set selection \<subseteq> set (possible_branches w h (cell_distance st) cc)
              \<and> cells_visited st' = cells_visited st + int (length selection))"
    using restart_step [of st w h cum st'] by auto
  moreover have "1 \<le> force_branch False branch_count"
    by (simp add: force_branch_def)
  ultimately show ?thesis by blast
qed

text \<open>
  The witness is the 3 by 2 grid after the path \<open>(0,0), (1,0), (1,1), (0,1)\<close>, with an
  empty queue and the cells \<open>(2,0)\<close> and \<open>(2,1)\<close> unvisited: the farthest cell
  \<open>(0,1)\<close> has no remaining side and is dropped, the next, \<open>(1,1)\<close>, has one and is
  popped and returned, and the forced branch visits \<open>(2,1)\<close>. The last line is the 2 by
  2 grid after a start at \<open>(0,0)\<close> that did not branch, two sides remaining.
\<close>

theorem restart_selector_witness:
  "heap_ordered [(- 3, (0, 1)), (- 2, (1, 1)), (- 1, (1, 0)), (0, (0, 0))]
   \<and> py_get [0, 1, 1, 0, 1, 1 :: int] (t 3 (0, 1)) = Inr 0
   \<and> fallback_cell 3 [0, 1, 1, 0, 1, 1] [(- 3, (0, 1)), (- 2, (1, 1)), (- 1, (1, 0)), (0, (0, 0))]
       = fallback_cell 3 [0, 1, 1, 0, 1, 1] [(- 2, (1, 1)), (- 1, (1, 0)), (0, (0, 0))]
   \<and> py_get [0, 1, 1, 0, 1, 1 :: int] (t 3 (1, 1)) = Inr 1
   \<and> fallback_cell 3 [0, 1, 1, 0, 1, 1] [(- 2, (1, 1)), (- 1, (1, 0)), (0, (0, 0))]
       = Inr (Some (1, 1), [(- 1, (1, 0)), (0, (0, 0))])
   \<and> growth_step 3 2 (accumulate (map py_float [3 / 10, 9 / 20, 1 / 5, 1 / 20])) restart_state
       = Inr restarted_state
   \<and> q restarted_state \<noteq> []
   \<and> cells_visited restarted_state = cells_visited restart_state + int (length (q restarted_state))
   \<and> py_get [2, 1, 1, 2 :: int] (t 2 (0, 0)) = Inr 2
   \<and> fallback_cell 2 [2, 1, 1, 2] [(0, (0, 0))] = Inr (Some (0, 0), [(0, (0, 0))])"
proof -
  let ?rs = "[0, 1, 1, 0, 1, 1] :: int list"
  let ?heap = "[(- 2, (1, 1)), (- 1, (1, 0)), (0, (0, 0))] :: (int \<times> cell) list"
  let ?cum = "accumulate (map py_float [3 / 10, 9 / 20, 1 / 5, 1 / 20])"
  have o1: "heap_ordered ((- 3, (0, 1)) # ?heap)"
    by (simp add: heap_ordered_def tuple_less_def)
  have g1: "py_get ?rs (t 3 (0, 1)) = Inr 0"
    by (simp add: py_get_def py_index_def t_def)
  have o2: "heap_ordered ((- 2, (1, 1)) # [(- 1, (1, 0)), (0, (0, 0))])"
    by (simp add: heap_ordered_def tuple_less_def)
  have g2: "py_get ?rs (t 3 (1, 1)) = Inr 1"
    by (simp add: py_get_def py_index_def t_def)
  have o3: "heap_ordered ((0, (0, 0)) # [])"
    by (simp add: heap_ordered_def)
  have g3: "py_get [2, 1, 1, 2 :: int] (t 2 (0, 0)) = Inr 2"
    by (simp add: py_get_def py_index_def t_def)
  have step: "growth_step 3 2 ?cum restart_state = Inr restarted_state"
    by code_simp
  have st: "q restart_state = []" "cell_remaining_sides restart_state = ?rs"
    "cell_by_distance restart_state = (- 3, (0, 1)) # ?heap"
    by (simp_all add: restart_state_def)
  note first = restart_selector [OF o1 g1, of restart_state 2 ?cum restarted_state]
  from first have drop: "fallback_cell 3 ?rs ((- 3, (0, 1)) # ?heap) = fallback_cell 3 ?rs ?heap"
    by blast
  from first st step obtain selection where
    "selection \<noteq> []" "q restarted_state = selection"
    "cells_visited restarted_state = cells_visited restart_state + int (length selection)"
    by blast
  then have branched: "q restarted_state \<noteq> []"
    "cells_visited restarted_state = cells_visited restart_state + int (length (q restarted_state))"
    by simp_all
  from restart_selector [OF o2 g2]
  have pop: "fallback_cell 3 ?rs ?heap = Inr (Some (1, 1), [(- 1, (1, 0)), (0, (0, 0))])"
    by blast
  from restart_selector [OF o3 g3]
  have keep: "fallback_cell 2 [2, 1, 1, 2] [(0, (0, 0))] = Inr (Some (0, 0), [(0, (0, 0))])"
    by (simp del: fallback_cell.simps)
  show ?thesis
    by (rule conjI o1 g1 drop g2 pop step branched g3 keep)+
qed

section \<open>The exit\<close>

text \<open>
  The side of the exit in the spec's words: left, top, right, bottom edge membership,
  checked in that order. The value is the wall's bit.
\<close>

definition exit_wall :: "int \<Rightarrow> int \<Rightarrow> cell \<Rightarrow> int" where
  "exit_wall w h c =
     (if fst c = 0 then 1 else if snd c = 0 then 2 else if fst c = w - 1 then 4 else 8)"

text \<open>The position behind a wall of a cell, the wall given by its bit.\<close>

definition across :: "cell \<Rightarrow> int \<Rightarrow> cell" where
  "across c wall =
     (if wall = 1 then c_l c else if wall = 2 then c_t c else if wall = 4 then c_r c else c_b c)"

lemma exit_wall_outward:
  assumes "in_bounds w h c" and "is_border w h c"
  shows "\<not> in_bounds w h (across c (exit_wall w h c))"
  using assms
  by (auto simp: across_def exit_wall_def in_bounds_def is_border_def
        c_l_def c_r_def c_t_def c_b_def)

lemma open_wall_in_bounds:
  "in_bounds w h c \<Longrightarrow> length cs = nat (w * h) \<Longrightarrow>
     open_wall w wall c cs = Inr (cs[nat (t w c) := cs ! nat (t w c) OR wall])"
  by (simp add: open_wall_def py_get_def py_set_def ebind_def py_index_in_bounds)

lemma open_exit_border:
  assumes "in_bounds w h c" and "is_border w h c" and "length cs = nat (w * h)"
  shows "open_exit w h c cs = Inr (cs[nat (t w c) := cs ! nat (t w c) OR exit_wall w h c])"
  using assms(2) open_wall_in_bounds [OF assms(1,3)]
  by (auto simp: open_exit_def exit_wall_def is_border_def
        open_left_def open_top_def open_right_def open_bottom_def)

lemma set_exit_candidates:
  "set (exit_candidates w h dists med) =
     {c. in_bounds w h c \<and> is_border w h c \<and> med < dists ! nat (t w c)}"
  by (auto simp: exit_candidates_def in_bounds_def split: if_splits)

text \<open>
  A cell qualifies as the exit, in the spec's words: a border cell of the grid whose
  distance strictly exceeds \<open>minExitDistance\<close>, the configured minimum length or
  \<open>min(width, height)\<close> when that is not positive.
\<close>

definition exit_qualifies :: "int \<Rightarrow> int \<Rightarrow> int \<Rightarrow> state \<Rightarrow> cell \<Rightarrow> bool" where
  "exit_qualifies w h min_length st c =
     (in_bounds w h c \<and> is_border w h c \<and>
      (if 0 < min_length then min_length else min w h) < cell_distance st ! nat (t w c))"

lemma set_candidates_qualify:
  "set (exit_candidates w h (cell_distance st) (min_exit_distance w h min_length))
     = {c. exit_qualifies w h min_length st c}"
  by (simp add: set_exit_candidates exit_qualifies_def min_exit_distance_def)

text \<open>The candidates are listed column by column, each cell once.\<close>

lemma concat_map_if:
  "concat (map (\<lambda>y. if P y then [f y] else []) ys) = map f (filter P ys)"
  by (induction ys) simp_all

lemma exit_candidates_filter:
  "exit_candidates w h dists med =
     filter (\<lambda>c. is_border w h c \<and> med < dists ! nat (t w c))
       (List.product [0..w - 1] [0..h - 1])"
proof -
  have "concat (map (\<lambda>x. concat (map (\<lambda>y.
            if is_border w h (x, y) \<and> med < dists ! nat (t w (x, y)) then [(x, y)] else []) ys)) xs)
        = filter (\<lambda>c. is_border w h c \<and> med < dists ! nat (t w c)) (List.product xs ys)"
    for xs ys :: "int list"
  proof (induction xs)
    case Nil
    show ?case by simp
  next
    case (Cons x xs)
    have "concat (map (\<lambda>y.
            if is_border w h (x, y) \<and> med < dists ! nat (t w (x, y)) then [(x, y)] else []) ys)
          = map (Pair x) (filter (\<lambda>y. is_border w h (x, y) \<and> med < dists ! nat (t w (x, y))) ys)"
      by (rule concat_map_if)
    also have "\<dots> = filter (\<lambda>c. is_border w h c \<and> med < dists ! nat (t w c)) (map (Pair x) ys)"
      by (simp add: filter_map comp_def)
    finally show ?case using Cons.IH by simp
  qed
  then show ?thesis by (simp add: exit_candidates_def)
qed

lemma distinct_exit_candidates: "distinct (exit_candidates w h dists med)"
  unfolding exit_candidates_filter
  by (intro distinct_filter distinct_product) simp_all

text \<open>The masks keep their number through the whole of the growth.\<close>

lemma py_set_length: "py_set xs i v = Inr ys \<Longrightarrow> length ys = length xs"
  by (auto simp: py_set_def split: option.splits)

lemma open_wall_length: "open_wall w wall c cs = Inr cs' \<Longrightarrow> length cs' = length cs"
  by (auto simp: open_wall_def ebind_Inr dest: py_set_length)

lemma connect_length:
  assumes "connect w c1 c2 cs = Inr cs'"
  shows "length cs' = length cs"
proof -
  have two: "length cs' = length cs"
    if "ebind (open_wall w a c1 cs) (open_wall w b c2) = Inr cs'" for a b
  proof -
    from that obtain cs1 where "open_wall w a c1 cs = Inr cs1" "open_wall w b c2 cs1 = Inr cs'"
      by (auto simp: ebind_Inr)
    from open_wall_length [OF this(1)] open_wall_length [OF this(2)] show ?thesis by simp
  qed
  from assms show ?thesis
    unfolding connect_def open_left_def open_right_def open_top_def open_bottom_def
    by (auto split: if_splits dest: two)
qed

lemma set_visited_cell_state: "set_visited w h c d st = Inr st' \<Longrightarrow> cell_state st' = cell_state st"
  by (auto simp: set_visited_def ebind_Inr)

lemma q_up_cell_state: "q_up w h c d st = Inr st' \<Longrightarrow> cell_state st' = cell_state st"
  unfolding q_up_def by (drule set_visited_cell_state) simp

lemma branch_into_length:
  "branch_into w h cc d selection st = Inr st' \<Longrightarrow>
     length (cell_state st') = length (cell_state st)"
proof (induction selection arbitrary: st)
  case Nil
  then show ?case by simp
next
  case (Cons n selection)
  from Cons.prems obtain cs st1 where
    con: "connect w cc n (cell_state st) = Inr cs" and
    up: "q_up w h n (d + 1) (st\<lparr>cell_state := cs\<rparr>) = Inr st1" and
    rest: "branch_into w h cc d selection st1 = Inr st'"
    by (auto simp: ebind_Inr)
  from connect_length [OF con] q_up_cell_state [OF up] Cons.IH [OF rest] show ?case by simp
qed

lemma growth_step_length:
  assumes "growth_step w h cum st = Inr st'"
  shows "length (cell_state st') = length (cell_state st)"
proof -
  from assms obtain can_terminate cc st1 where
    nc: "next_cell w st = Inr (can_terminate, cc, st1)" and
    ex: "expand w h cum can_terminate cc st1 = Inr st'"
    by (auto simp: growth_step_def ebind_Inr)
  from nc have "cell_state st1 = cell_state st"
    by (auto simp: next_cell_def ebind_Inr split: list.splits option.splits)
  moreover from ex obtain d selection g2 where
    "branch_into w h cc d selection (st1\<lparr>random_state := g2\<rparr>) = Inr st'"
    by (auto simp: expand_def ebind_Inr Let_def)
  from branch_into_length [OF this] have "length (cell_state st') = length (cell_state st1)"
    by simp
  ultimately show ?thesis by simp
qed

lemma pick_start_length:
  assumes "pick_start w h st = Inr (start, st')"
  shows "length (cell_state st') = length (cell_state st)"
  using assms
  unfolding pick_start_def open_left_def open_right_def open_top_def open_bottom_def
  by (auto simp: ebind_Inr split: if_splits dest: open_wall_length)

lemma grow_cell_state_length:
  assumes "grow w h branch_dist g = Inr st"
  shows "length (cell_state st) = nat (w * h)"
proof -
  from assms obtain st0 start st1 st2 where
    init: "initial_state w h g = Inr st0" and
    start: "pick_start w h st0 = Inr (start, st1)" and
    up: "q_up w h start 0 st1 = Inr st2" and
    loop: "growth_loop w h (accumulate branch_dist) st2 = Inr st"
    by (auto simp: grow_def ebind_Inr)
  from init have "length (cell_state st0) = nat (w * h)"
    by (auto simp: initial_state_def ebind_Inr)
  with pick_start_length [OF start] q_up_cell_state [OF up]
  have "length (cell_state st2) = nat (w * h)" by simp
  moreover have "length (cell_state s') = nat (w * h)"
    if "length (cell_state s) = nat (w * h)" "growth_step w h (accumulate branch_dist) s = Inr s'"
    for s s'
    using that growth_step_length [of w h "accumulate branch_dist" s s'] by simp
  ultimately show ?thesis
    using loop growth_loop_invariant [of "\<lambda>s. length (cell_state s) = nat (w * h)" w h
                 "accumulate branch_dist" st2 st]
    by blast
qed

lemma punch_exit_none:
  assumes "\<not> (\<exists>c. exit_qualifies w h min_length st c)"
  shows "punch_exit w h min_length st = Inl (SystemExit no_exit_message)"
proof -
  from assms have "{c. exit_qualifies w h min_length st c} = {}"
    by simp
  then have "set (exit_candidates w h (cell_distance st) (min_exit_distance w h min_length)) = {}"
    by (simp add: set_candidates_qualify)
  then have "exit_candidates w h (cell_distance st) (min_exit_distance w h min_length) = []"
    by simp
  then show ?thesis
    by (simp add: punch_exit_def random_choice_def)
qed

lemma punch_exit_some:
  assumes len: "length (cell_state st) = nat (w * h)"
    and ex: "\<exists>c. exit_qualifies w h min_length st c"
    and cands: "candidates = exit_candidates w h (cell_distance st) (min_exit_distance w h min_length)"
    and c: "c = candidates ! fst (randbelow (length candidates) (random_state st))"
  shows "fst (randbelow (length candidates) (random_state st)) < length candidates \<and>
         exit_qualifies w h min_length st c \<and>
         \<not> in_bounds w h (across c (exit_wall w h c)) \<and>
         punch_exit w h min_length st =
           Inr (st\<lparr>cell_state :=
                      (cell_state st)[nat (t w c) := cell_state st ! nat (t w c) OR exit_wall w h c],
                   random_state := snd (randbelow (length candidates) (random_state st))\<rparr>)"
proof -
  from ex have "{c. exit_qualifies w h min_length st c} \<noteq> {}"
    by simp
  then have "set candidates \<noteq> {}"
    by (simp add: cands set_candidates_qualify)
  then have ne: "candidates \<noteq> []" by auto
  then have idx: "fst (randbelow (length candidates) (random_state st)) < length candidates"
    by (simp add: randbelow_less)
  then have "c \<in> set candidates" unfolding c by (rule nth_mem)
  with set_candidates_qualify [of w h st min_length] cands
  have q: "exit_qualifies w h min_length st c" by simp
  then have border: "in_bounds w h c" "is_border w h c" by (simp_all add: exit_qualifies_def)
  from open_exit_border [OF this len]
  have oe: "open_exit w h c (cell_state st) =
          Inr ((cell_state st)[nat (t w c) := cell_state st ! nat (t w c) OR exit_wall w h c])" .
  obtain i g where rb: "randbelow (length candidates) (random_state st) = (i, g)"
    by (cases "randbelow (length candidates) (random_state st)")
  with c have c': "candidates ! i = c" by simp
  have "random_choice candidates (random_state st) = Inr (c, g)"
    using ne rb c' by (simp add: random_choice_def)
  with oe rb have "punch_exit w h min_length st =
           Inr (st\<lparr>cell_state :=
                      (cell_state st)[nat (t w c) := cell_state st ! nat (t w c) OR exit_wall w h c],
                   random_state := snd (randbelow (length candidates) (random_state st))\<rparr>)"
    by (simp add: punch_exit_def cands [symmetric] ebind_def)
  with idx q exit_wall_outward [OF border] show ?thesis by simp
qed

lemma gen_maze_after_growth:
  assumes "grow w h branch_dist g = Inr st"
  shows "gen_maze w h branch_dist min_length g =
           ebind (punch_exit w h min_length st) (\<lambda>st'.
             Inr \<lparr>maze = cell_state st', width = w, height = h\<rparr>)"
  using assms by (simp add: gen_maze_def gen_maze_state_def ebind_def)

text \<open>
  Claim C4. Let the growth loop have ended, in the state \<open>st\<close>. With
  \<open>minExitDistance\<close> the minimum length when that is positive and \<open>min(width, height)\<close>
  otherwise, the candidates for the exit are exactly the border cells of the grid whose
  distance exceeds it, each listed once. \<open>gen_maze\<close> fails if and only if there is none,
  and then it has printed that no path of the minimum distance was found and left by
  \<open>exit()\<close>: no maze is returned. Otherwise \<open>random.choice\<close> draws an index below the
  number of candidates, every qualifying cell stands at exactly one index, and the maze
  returned is the grown one with the mask of the cell at the drawn index changed by one
  wall bit, the side chosen in the order left, top, right, bottom; behind that wall there
  is no cell of the grid.
\<close>

theorem gen_maze_exit:
  assumes "grow w h branch_dist g = Inr st"
    and "candidates = exit_candidates w h (cell_distance st) (min_exit_distance w h min_length)"
    and "c = candidates ! fst (randbelow (length candidates) (random_state st))"
  shows "min_exit_distance w h min_length = (if 0 < min_length then min_length else min w h)
     \<and> set candidates = {c. exit_qualifies w h min_length st c}
     \<and> distinct candidates
     \<and> (\<forall>c'. exit_qualifies w h min_length st c' \<longrightarrow>
           (\<exists>!i. i < length candidates \<and> candidates ! i = c'))
     \<and> ((\<exists>e. gen_maze w h branch_dist min_length g = Inl e)
           \<longleftrightarrow> \<not> (\<exists>c. exit_qualifies w h min_length st c))
     \<and> (\<not> (\<exists>c. exit_qualifies w h min_length st c) \<longrightarrow>
           gen_maze w h branch_dist min_length g
             = Inl (SystemExit ''Could not find a path with min distance specified''))
     \<and> ((\<exists>c. exit_qualifies w h min_length st c) \<longrightarrow>
           fst (randbelow (length candidates) (random_state st)) < length candidates \<and>
           exit_qualifies w h min_length st c \<and>
           \<not> in_bounds w h (across c (exit_wall w h c)) \<and>
           gen_maze w h branch_dist min_length g =
             Inr \<lparr>maze = (cell_state st)[nat (t w c) :=
                            cell_state st ! nat (t w c) OR exit_wall w h c],
                  width = w, height = h\<rparr>)"
proof -
  note len = grow_cell_state_length [OF assms(1)]
  note gm = gen_maze_after_growth [OF assms(1), of min_length]
  have med: "min_exit_distance w h min_length = (if 0 < min_length then min_length else min w h)"
    by (simp add: min_exit_distance_def)
  have cells: "set candidates = {c. exit_qualifies w h min_length st c}"
    unfolding assms(2) by (rule set_candidates_qualify)
  have once: "distinct candidates"
    unfolding assms(2) by (rule distinct_exit_candidates)
  have index: "\<forall>c'. exit_qualifies w h min_length st c' \<longrightarrow>
           (\<exists>!i. i < length candidates \<and> candidates ! i = c')"
  proof (intro allI impI)
    fix c' assume "exit_qualifies w h min_length st c'"
    with cells have "c' \<in> set candidates" by simp
    with once show "\<exists>!i. i < length candidates \<and> candidates ! i = c'"
      by (simp add: distinct_Ex1)
  qed
  show ?thesis
  proof (cases "\<exists>c. exit_qualifies w h min_length st c")
    case True
    from punch_exit_some [OF len True assms(2,3)]
    have some: "fst (randbelow (length candidates) (random_state st)) < length candidates"
      "exit_qualifies w h min_length st c"
      "\<not> in_bounds w h (across c (exit_wall w h c))"
      "punch_exit w h min_length st =
           Inr (st\<lparr>cell_state :=
                      (cell_state st)[nat (t w c) := cell_state st ! nat (t w c) OR exit_wall w h c],
                   random_state := snd (randbelow (length candidates) (random_state st))\<rparr>)"
      by simp_all
    from some(4) have "gen_maze w h branch_dist min_length g =
             Inr \<lparr>maze = (cell_state st)[nat (t w c) :=
                            cell_state st ! nat (t w c) OR exit_wall w h c],
                  width = w, height = h\<rparr>"
      unfolding gm by (simp add: ebind_def)
    with True some(1,2,3) med cells once index show ?thesis by simp
  next
    case False
    from punch_exit_none [OF False]
    have "gen_maze w h branch_dist min_length g = Inl (SystemExit no_exit_message)"
      unfolding gm by (simp add: ebind_def)
    with False med cells once index show ?thesis by (simp add: no_exit_message_def)
  qed
qed

text \<open>
  The witness is the 3 by 2 grid grown from the start \<open>(0,0)\<close>, with the distances
  \<open>[0, 1, 4, 3, 2, 3]\<close> and \<open>min_length = 1\<close>. Four border cells are farther than 1;
  the draw 6 is reduced to the index 2, the cell \<open>(2,0)\<close>, which is not on the left
  edge and is on the top edge, so its top wall is opened: its mask goes from 8 to 10. On
  the 2 by 2 grid with \<open>min_length = -1\<close> the threshold is \<open>min(2, 2) = 2\<close>, no
  distance exceeds it and the generator exits.
\<close>

theorem gen_maze_exit_witness:
  "grow 3 2 (map py_float [3 / 10, 9 / 20, 1 / 5, 1 / 20])
     [0, 0, 0, 2 ^ 52, 0, 2 ^ 52, 1, 2 ^ 52, 0, 0, 0, 0, 0, 0, 0, 6] = Inr grown_wide_state
   \<and> exit_candidates 3 2 (cell_distance grown_wide_state) (min_exit_distance 3 2 1)
       = [(0, 1), (1, 1), (2, 0), (2, 1)]
   \<and> randbelow 4 (random_state grown_wide_state) = (2, [])
   \<and> exit_qualifies 3 2 1 grown_wide_state (2, 0)
   \<and> (\<exists>!i. i < length ([(0, 1), (1, 1), (2, 0), (2, 1)] :: cell list)
            \<and> ([(0, 1), (1, 1), (2, 0), (2, 1)] :: cell list) ! i = (2, 0))
   \<and> exit_wall 3 2 (2, 0) = 2
   \<and> \<not> in_bounds 3 2 (across (2, 0) (exit_wall 3 2 (2, 0)))
   \<and> gen_maze 3 2 (map py_float [3 / 10, 9 / 20, 1 / 5, 1 / 20]) 1
        [0, 0, 0, 2 ^ 52, 0, 2 ^ 52, 1, 2 ^ 52, 0, 0, 0, 0, 0, 0, 0, 6]
       = Inr \<lparr>maze = [6, 9, 10, 4, 7, 3], width = 3, height = 2\<rparr>
   \<and> grow 2 2 (map py_float [3 / 10, 9 / 20, 1 / 5, 1 / 20])
        [0, 0, 0, 8106479329266893, 0, 0, 2 ^ 52, 0] = Inr grown_state
   \<and> exit_candidates 2 2 (cell_distance grown_state) (min_exit_distance 2 2 (- 1)) = []
   \<and> gen_maze 2 2 (map py_float [3 / 10, 9 / 20, 1 / 5, 1 / 20]) (- 1)
        [0, 0, 0, 8106479329266893, 0, 0, 2 ^ 52, 0]
       = Inl (SystemExit ''Could not find a path with min distance specified'')"
proof -
  let ?bd = "map py_float [3 / 10, 9 / 20, 1 / 5, 1 / 20]"
  let ?wide = "[0, 0, 0, 2 ^ 52, 0, 2 ^ 52, 1, 2 ^ 52, 0, 0, 0, 0, 0, 0, 0, 6] :: rng"
  let ?small = "[0, 0, 0, 8106479329266893, 0, 0, 2 ^ 52, 0] :: rng"
  let ?cands = "[(0, 1), (1, 1), (2, 0), (2, 1)] :: cell list"
  have run: "grow 3 2 ?bd ?wide = Inr grown_wide_state"
    by code_simp
  have far: "exit_candidates 3 2 (cell_distance grown_wide_state) (min_exit_distance 3 2 1) = ?cands"
    by code_simp
  have drawn: "randbelow 4 (random_state grown_wide_state) = (2, [])"
    by code_simp
  have pick: "(2, 0) = ?cands ! fst (randbelow (length ?cands) (random_state grown_wide_state))"
    by code_simp
  have wall: "exit_wall 3 2 (2, 0) = 2"
    by (simp add: exit_wall_def)
  have masks: "(cell_state grown_wide_state)[nat (t 3 (2, 0)) :=
                  cell_state grown_wide_state ! nat (t 3 (2, 0)) OR exit_wall 3 2 (2, 0)]
               = [6, 9, 10, 4, 7, 3]"
    by code_simp
  note found = gen_maze_exit [OF run far [symmetric] pick]
  from found have cells: "set ?cands = {c. exit_qualifies 3 2 1 grown_wide_state c}"
    by (rule conjunct2 [THEN conjunct1])
  have "(2, 0) \<in> set ?cands"
    by simp
  then have "(2, 0) \<in> {c. exit_qualifies 3 2 1 grown_wide_state c}"
    unfolding cells .
  then have q: "exit_qualifies 3 2 1 grown_wide_state (2, 0)"
    by simp
  then have some: "\<exists>c. exit_qualifies 3 2 1 grown_wide_state c"
    by (rule exI)
  from found q have once: "\<exists>!i. i < length ?cands \<and> ?cands ! i = (2, 0)"
    by blast
  from found some have out: "\<not> in_bounds 3 2 (across (2, 0) (exit_wall 3 2 (2, 0)))"
    and "gen_maze 3 2 ?bd 1 ?wide =
           Inr \<lparr>maze = (cell_state grown_wide_state)[nat (t 3 (2, 0)) :=
                          cell_state grown_wide_state ! nat (t 3 (2, 0)) OR exit_wall 3 2 (2, 0)],
                width = 3, height = 2\<rparr>"
    by blast+
  then have opened: "gen_maze 3 2 ?bd 1 ?wide = Inr \<lparr>maze = [6, 9, 10, 4, 7, 3], width = 3, height = 2\<rparr>"
    by (simp only: masks)
  have run2: "grow 2 2 ?bd ?small = Inr grown_state"
    by code_simp
  have none: "exit_candidates 2 2 (cell_distance grown_state) (min_exit_distance 2 2 (- 1)) = []"
    by code_simp
  note missing = gen_maze_exit [OF run2 none [symmetric] refl]
  from missing have "set ([] :: cell list) = {c. exit_qualifies 2 2 (- 1) grown_state c}"
    by (rule conjunct2 [THEN conjunct1])
  then have "\<not> (\<exists>c. exit_qualifies 2 2 (- 1) grown_state c)"
    by simp
  with missing have exits: "gen_maze 2 2 ?bd (- 1) ?small
       = Inl (SystemExit ''Could not find a path with min distance specified'')"
    by blast
  show ?thesis
    by (rule conjI run far drawn q once wall out opened run2 none exits)+
qed

end
